theory Spec2Isabelle
  imports Complex_Main "HOL-Library.Multiset"
begin

section \<open>Data model (Index.h, IndexFlat.cpp)\<close>

text \<open>
  Floats are modelled as exact reals, \<open>idx_t\<close> positions and counts as naturals,
  output labels (which can be \<open>-1\<close>) as integers.  A vector buffer is a list in row-major
  order: coordinate \<open>j\<close> of vector \<open>i\<close> is at offset \<open>i * d + j\<close>.
\<close>

datatype MetricType = METRIC_INNER_PRODUCT | METRIC_L2

text \<open>
  \<open>FaissException\<close> is what \<open>FAISS_THROW_IF_NOT\<close> throws (the specification calls it
  InvariantViolation); \<open>AssertFailure\<close> is a failed \<open>assert\<close> of a debug build;
  \<open>OutOfBounds\<close> stands for a read outside an array, which C++ leaves undefined.
\<close>

datatype error = FaissException | AssertFailure | OutOfBounds

record Index =
  d :: nat
  ntotal :: nat
  is_trained :: bool
  metric_type :: MetricType

record IndexFlat = Index +
  xb :: "real list"

definition IndexFlat_new :: "nat \<Rightarrow> MetricType \<Rightarrow> IndexFlat" where
  "IndexFlat_new dd metric =
     \<lparr> d = dd, ntotal = 0, is_trained = True, metric_type = metric, xb = [] \<rparr>"

text \<open>\<open>xb.insert (xb.end(), x, x + n * d); ntotal += n\<close>\<close>

definition IndexFlat_add :: "nat \<Rightarrow> real list \<Rightarrow> 'a IndexFlat_scheme \<Rightarrow> 'a IndexFlat_scheme" where
  "IndexFlat_add n x s = s \<lparr> xb := xb s @ take (n * d s) x, ntotal := ntotal s + n \<rparr>"

definition IndexFlat_reset :: "'a IndexFlat_scheme \<Rightarrow> 'a IndexFlat_scheme" where
  "IndexFlat_reset s = s \<lparr> xb := [], ntotal := 0 \<rparr>"

text \<open>\<open>memmove (&b[dst], &b[src], n * sizeof (b[0]))\<close> on a buffer that holds both ranges.\<close>

definition memmove :: "real list \<Rightarrow> nat \<Rightarrow> nat \<Rightarrow> nat \<Rightarrow> real list" where
  "memmove b dst src n = take dst b @ take n (drop src b) @ drop (dst + n) b"

text \<open>
  The loop of \<open>IndexFlat::remove_ids\<close>: \<open>i\<close> runs over the stored labels, \<open>j\<close> counts the
  vectors kept so far; the result is the final \<open>j\<close> and the buffer.
\<close>

function remove_ids_loop ::
  "(nat \<Rightarrow> bool) \<Rightarrow> nat \<Rightarrow> nat \<Rightarrow> nat \<Rightarrow> nat \<Rightarrow> real list \<Rightarrow> nat \<times> real list" where
  "remove_ids_loop sel dd nt i j b =
     (if i < nt then
        (if sel i then remove_ids_loop sel dd nt (i + 1) j b
         else remove_ids_loop sel dd nt (i + 1) (j + 1)
                (if i > j then memmove b (dd * j) (dd * i) dd else b))
      else (j, b))"
  by pat_completeness auto
termination
  by (relation "measure (\<lambda>(sel, dd, nt, i, j, b). nt - i)") auto

declare remove_ids_loop.simps [simp del]

text \<open>\<open>std::vector::resize\<close>: truncate, or extend with zeros.\<close>

definition resize :: "nat \<Rightarrow> real list \<Rightarrow> real list" where
  "resize n b = take n b @ replicate (n - length b) 0"

text \<open>\<open>IndexFlat::remove_ids\<close>: the new state and the returned \<open>nremove\<close>.\<close>

definition remove_ids :: "(nat \<Rightarrow> bool) \<Rightarrow> 'a IndexFlat_scheme \<Rightarrow> 'a IndexFlat_scheme \<times> nat" where
  "remove_ids sel s =
     (let (j, b) = remove_ids_loop sel (d s) (ntotal s) 0 0 (xb s);
          nremove = ntotal s - j
      in if nremove > 0 then (s \<lparr> xb := resize (j * d s) b, ntotal := j \<rparr>, nremove)
         else (s \<lparr> xb := b \<rparr>, nremove))"

text \<open>
  \<open>IndexFlat::reconstruct\<close> copies \<open>d\<close> floats from \<open>&xb[key * d]\<close>; a key outside the store
  reads outside the buffer.
\<close>

definition vec_at :: "nat \<Rightarrow> real list \<Rightarrow> nat \<Rightarrow> real list" where
  "vec_at dd b i = take dd (drop (i * dd) b)"

definition reconstruct :: "int \<Rightarrow> 'a IndexFlat_scheme \<Rightarrow> error + real list" where
  "reconstruct key s =
     (if 0 \<le> key \<and> (nat key + 1) * d s \<le> length (xb s)
      then Inr (vec_at (d s) (xb s) (nat key)) else Inl OutOfBounds)"

text \<open>The store invariant of the specification: the buffer holds exactly \<open>ntotal\<close> vectors.\<close>

definition wf_store :: "'a IndexFlat_scheme \<Rightarrow> bool" where
  "wf_store s \<longleftrightarrow> length (xb s) = ntotal s * d s"

text \<open>The labels that survive a removal, in increasing order.\<close>

definition kept :: "(nat \<Rightarrow> bool) \<Rightarrow> nat \<Rightarrow> nat list" where
  "kept sel nt = filter (\<lambda>i. \<not> sel i) [0..<nt]"

text \<open>A batch of per-query results fails as soon as one of them fails.\<close>

fun collect :: "(error + 'a) list \<Rightarrow> error + 'a list" where
  "collect [] = Inr []"
| "collect (Inl e # rs) = Inl e"
| "collect (Inr r # rs) = (case collect rs of Inl e \<Rightarrow> Inl e | Inr out \<Rightarrow> Inr (r # out))"

section \<open>IndexFlat1D\<close>

text \<open>
  A distance written by \<open>IndexFlat1D::search\<close>: a finite float, or the \<open>1.0 / 0.0\<close> that
  pads the slots for which no stored vector is left.
\<close>

datatype float = Finite real | PosInf

instantiation float :: linorder
begin

fun less_eq_float :: "float \<Rightarrow> float \<Rightarrow> bool" where
  "less_eq_float (Finite a) (Finite b) = (a \<le> b)"
| "less_eq_float (Finite a) PosInf = True"
| "less_eq_float PosInf (Finite b) = False"
| "less_eq_float PosInf PosInf = True"

definition less_float :: "float \<Rightarrow> float \<Rightarrow> bool" where
  "less_float x y \<longleftrightarrow> x \<le> y \<and> \<not> y \<le> x"

instance
proof
  fix x y z :: float
  show "(x < y) = (x \<le> y \<and> \<not> y \<le> x)" by (rule less_float_def)
  show "x \<le> x" by (cases x) simp_all
  show "x \<le> y \<Longrightarrow> y \<le> z \<Longrightarrow> x \<le> z" by (cases x; cases y; cases z) simp_all
  show "x \<le> y \<Longrightarrow> y \<le> x \<Longrightarrow> x = y" by (cases x; cases y) simp_all
  show "x \<le> y \<or> y \<le> x" by (cases x; cases y) auto
qed

end

record IndexFlat1D = IndexFlat +
  continuous_update :: bool
  perm :: "nat list"

text \<open>\<open>IndexFlat1D (bool continuous_update): IndexFlatL2 (1)\<close>\<close>

definition IndexFlat1D_new :: "bool \<Rightarrow> IndexFlat1D" where
  "IndexFlat1D_new cu =
     \<lparr> d = 1, ntotal = 0, is_trained = True, metric_type = METRIC_L2, xb = [],
       continuous_update = cu, perm = [] \<rparr>"

text \<open>
  Modelled from the spec: \<open>fvec_argsort\<close> and \<open>fvec_argsort_parallel\<close> (utils, not among
  the sources).  The specification asks for an array of labels such that the corresponding
  coordinate values are non-decreasing; here the labels \<open>0..n-1\<close> sorted by value.
\<close>

definition fvec_argsort :: "nat \<Rightarrow> real list \<Rightarrow> nat list" where
  "fvec_argsort n vals = sort_key (\<lambda>i. vals ! i) [0..<n]"

definition update_permutation :: "IndexFlat1D \<Rightarrow> IndexFlat1D" where
  "update_permutation s = s \<lparr> perm := fvec_argsort (ntotal s) (xb s) \<rparr>"

definition IndexFlat1D_add :: "nat \<Rightarrow> real list \<Rightarrow> IndexFlat1D \<Rightarrow> IndexFlat1D" where
  "IndexFlat1D_add n x s =
     (let s1 = IndexFlat_add n x s
      in if continuous_update s1 then update_permutation s1 else s1)"

definition IndexFlat1D_reset :: "IndexFlat1D \<Rightarrow> IndexFlat1D" where
  "IndexFlat1D_reset s = (IndexFlat_reset s) \<lparr> perm := [] \<rparr>"

text \<open>The read \<open>xb[perm[i]]\<close> and the label \<open>perm[i]\<close>, for a signed index \<open>i\<close>.\<close>

definition xbp :: "IndexFlat1D \<Rightarrow> int \<Rightarrow> error + real" where
  "xbp s i =
     (if 0 \<le> i \<and> nat i < length (perm s) \<and> perm s ! nat i < length (xb s)
      then Inr (xb s ! (perm s ! nat i)) else Inl OutOfBounds)"

definition label :: "IndexFlat1D \<Rightarrow> int \<Rightarrow> int" where
  "label s i = int (perm s ! nat i)"

text \<open>
  The loops of \<open>IndexFlat1D::search\<close> for one query \<open>q\<close>.  Each returns the pairs
  \<open>(D[wp], I[wp]), ..., (D[k - 1], I[k - 1])\<close> that the source writes from the write
  position \<open>wp\<close> on; \<open>emit\<close> puts one written slot in front of what follows.
\<close>

definition emit :: "float \<times> int \<Rightarrow> error + (float \<times> int) list \<Rightarrow> error + (float \<times> int) list" where
  "emit slot rest = (case rest of Inl e \<Rightarrow> Inl e | Inr out \<Rightarrow> Inr (slot # out))"

function finish_right :: "IndexFlat1D \<Rightarrow> real \<Rightarrow> nat \<Rightarrow> int \<Rightarrow> nat \<Rightarrow> error + (float \<times> int) list" where
  "finish_right s q k i1 wp =
     (if wp < k then
        (if i1 < int (ntotal s) then
           (case xbp s i1 of
              Inl e \<Rightarrow> Inl e
            | Inr v \<Rightarrow> emit (Finite (v - q), label s i1) (finish_right s q k (i1 + 1) (wp + 1)))
         else emit (PosInf, - 1) (finish_right s q k i1 (wp + 1)))
      else Inr [])"
  by pat_completeness auto
termination
  by (relation "measure (\<lambda>(s, q, k, i1, wp). k - wp)") auto

function finish_left :: "IndexFlat1D \<Rightarrow> real \<Rightarrow> nat \<Rightarrow> int \<Rightarrow> nat \<Rightarrow> error + (float \<times> int) list" where
  "finish_left s q k i0 wp =
     (if wp < k then
        (if i0 \<ge> 0 then
           (case xbp s i0 of
              Inl e \<Rightarrow> Inl e
            | Inr v \<Rightarrow> emit (Finite (q - v), label s i0) (finish_left s q k (i0 - 1) (wp + 1)))
         else emit (PosInf, - 1) (finish_left s q k i0 (wp + 1)))
      else Inr [])"
  by pat_completeness auto
termination
  by (relation "measure (\<lambda>(s, q, k, i0, wp). k - wp)") auto

text \<open>The expansion loop \<open>while (wp < k)\<close> with its two exits to the finishing loops.\<close>

function expand :: "IndexFlat1D \<Rightarrow> real \<Rightarrow> nat \<Rightarrow> int \<Rightarrow> int \<Rightarrow> nat \<Rightarrow> error + (float \<times> int) list" where
  "expand s q k i0 i1 wp =
     (if wp < k then
        (case xbp s i0 of
           Inl e \<Rightarrow> Inl e
         | Inr xleft \<Rightarrow>
            (case xbp s i1 of
               Inl e \<Rightarrow> Inl e
             | Inr xright \<Rightarrow>
                (if q - xleft < xright - q then
                   emit (Finite (q - xleft), label s i0)
                     (if i0 - 1 < 0 then finish_right s q k i1 (wp + 1)
                      else expand s q k (i0 - 1) i1 (wp + 1))
                 else
                   emit (Finite (xright - q), label s i1)
                     (if i1 + 1 \<ge> int (ntotal s) then finish_left s q k i0 (wp + 1)
                      else expand s q k i0 (i1 + 1) (wp + 1)))))
      else Inr [])"
  by pat_completeness auto
termination
  by (relation "measure (\<lambda>(s, q, k, i0, i1, wp). k - wp)") auto

text \<open>The binary search \<open>while (i0 + 1 < i1)\<close>.\<close>

function bsearch :: "IndexFlat1D \<Rightarrow> real \<Rightarrow> int \<Rightarrow> int \<Rightarrow> error + int \<times> int" where
  "bsearch s q i0 i1 =
     (if i0 + 1 < i1 then
        (let imed = (i0 + i1) div 2
         in case xbp s imed of
              Inl e \<Rightarrow> Inl e
            | Inr v \<Rightarrow> if v \<le> q then bsearch s q imed i1 else bsearch s q i0 imed)
      else Inr (i0, i1))"
  by pat_completeness auto
termination
  by (relation "measure (\<lambda>(s, q, i0, i1). nat (i1 - i0))") auto

declare finish_right.simps [simp del] finish_left.simps [simp del]
  expand.simps [simp del] bsearch.simps [simp del]

text \<open>The body of the query loop: the \<open>k\<close> slots of one query.\<close>

definition search_query :: "IndexFlat1D \<Rightarrow> real \<Rightarrow> nat \<Rightarrow> error + (float \<times> int) list" where
  "search_query s q k =
     (case xbp s 0 of
        Inl e \<Rightarrow> Inl e
      | Inr v0 \<Rightarrow>
         if v0 > q then finish_right s q k 0 0
         else
           (case xbp s (int (ntotal s) - 1) of
              Inl e \<Rightarrow> Inl e
            | Inr v1 \<Rightarrow>
               if v1 \<le> q then finish_left s q k (int (ntotal s) - 1) 0
               else
                 (case bsearch s q 0 (int (ntotal s)) of
                    Inl e \<Rightarrow> Inl e
                  | Inr (i0, i1) \<Rightarrow> expand s q k i0 i1 0)))"

text \<open>
  \<open>IndexFlat1D::search\<close> for the \<open>n\<close> queries \<open>x[0], ..., x[n - 1]\<close>.  Row \<open>i\<close> of the result
  is the slice \<open>[i * k, (i + 1) * k)\<close> of the output arrays \<open>distances\<close> and \<open>labels\<close>.
\<close>

definition IndexFlat1D_search :: "nat \<Rightarrow> real list \<Rightarrow> nat \<Rightarrow> IndexFlat1D \<Rightarrow> error + (float \<times> int) list list" where
  "IndexFlat1D_search n x k s =
     (if length (perm s) \<noteq> ntotal s then Inl FaissException
      else if length x < n then Inl OutOfBounds
      else collect (map (\<lambda>i. search_query s (x ! i) k) [0..<n]))"

text \<open>
  The two states of the specification: \<open>Sorted\<close> when the permutation is valid for the
  current contents (it lists every stored label once and the values read through it are
  non-decreasing), \<open>Dirty\<close> otherwise.
\<close>

definition Sorted :: "IndexFlat1D \<Rightarrow> bool" where
  "Sorted s \<longleftrightarrow>
     length (xb s) = ntotal s \<and> sort (perm s) = [0..<ntotal s]
     \<and> sorted (map (\<lambda>p. xb s ! p) (perm s))"

definition Dirty :: "IndexFlat1D \<Rightarrow> bool" where
  "Dirty s \<longleftrightarrow> \<not> Sorted s"

section \<open>The bounded top-k selector and the metric kernels\<close>

text \<open>
  Modelled from the spec: \<open>fvec_L2sqr\<close> and \<open>fvec_inner_product\<close> (utils, not among the
  sources): the squared Euclidean distance and the inner-product score of two vectors.
\<close>

definition fvec_L2sqr :: "real list \<Rightarrow> real list \<Rightarrow> real" where
  "fvec_L2sqr x y = sum_list (map2 (\<lambda>a b. (a - b) * (a - b)) x y)"

definition fvec_inner_product :: "real list \<Rightarrow> real list \<Rightarrow> real" where
  "fvec_inner_product x y = sum_list (map2 (\<lambda>a b. a * b) x y)"

fun metric :: "MetricType \<Rightarrow> real list \<Rightarrow> real list \<Rightarrow> real" where
  "metric METRIC_L2 x y = fvec_L2sqr x y"
| "metric METRIC_INNER_PRODUCT x y = fvec_inner_product x y"

text \<open>
  Modelled from the spec: the comparators \<open>CMax\<close> and \<open>CMin\<close> and the heap primitives of
  Heap.h (not among the sources; IndexFlat.cpp calls them at the types \<open>CMax<float, idx_t>\<close>
  and \<open>CMin<float, idx_t>\<close>).  Section 4.3 of the specification describes a binary heap of
  at most \<open>k\<close> (value, label) pairs whose root is the worst of the kept: the largest distance
  for \<open>L2Squared\<close> (\<open>CMax\<close>), the smallest score for \<open>InnerProduct\<close> (\<open>CMin\<close>).  The heap lives
  in the first \<open>k\<close> cells of an array; node \<open>i\<close> (counted from 1) has the children \<open>2 * i\<close>
  and \<open>2 * i + 1\<close>.  The two parallel arrays of values and labels are one list of pairs.
  Every primitive expects \<open>k\<close> to be at most the length of the array.
\<close>

datatype heap_order = CMax | CMin

fun cmp :: "heap_order \<Rightarrow> real \<Rightarrow> real \<Rightarrow> bool" where
  "cmp CMax a b = (a > b)"
| "cmp CMin a b = (a < b)"

text \<open>The largest finite single-precision float, \<open>(2 - 2^-23) * 2^127\<close>.\<close>

definition FLT_MAX :: real where
  "FLT_MAX = 340282346638528859811704183484516925440"

fun neutral :: "heap_order \<Rightarrow> real" where
  "neutral CMax = FLT_MAX"
| "neutral CMin = - FLT_MAX"

type_synonym heap = "(real \<times> int) list"

text \<open>Sift up: the hole starts at node \<open>i\<close> and moves to the father while \<open>val\<close> beats it.\<close>

function push_loop :: "heap_order \<Rightarrow> heap \<Rightarrow> real \<Rightarrow> nat \<Rightarrow> heap \<times> nat" where
  "push_loop C bh val i =
     (if i > 1 then
        (let i_father = i div 2
         in if \<not> cmp C val (fst (bh ! (i_father - 1))) then (bh, i)
            else push_loop C (bh [i - 1 := bh ! (i_father - 1)]) val i_father)
      else (bh, i))"
  by pat_completeness auto
termination
  by (relation "measure (\<lambda>(C, bh, val, i). i)") auto

definition heap_push :: "heap_order \<Rightarrow> nat \<Rightarrow> heap \<Rightarrow> real \<Rightarrow> int \<Rightarrow> heap" where
  "heap_push C k bh val ids = (let (bh', i) = push_loop C bh val k in bh' [i - 1 := (val, ids)])"

text \<open>Sift down: the hole starts at the root and moves to the worse child while that child beats \<open>val\<close>.\<close>

function pop_loop :: "heap_order \<Rightarrow> nat \<Rightarrow> heap \<Rightarrow> real \<Rightarrow> nat \<Rightarrow> heap \<times> nat" where
  "pop_loop C k bh val i =
     (let i1 = 2 * i; i2 = i1 + 1
      in if i1 > k \<or> i = 0 then (bh, i)
         else if i2 = k + 1 \<or> cmp C (fst (bh ! (i1 - 1))) (fst (bh ! (i2 - 1))) then
           (if cmp C val (fst (bh ! (i1 - 1))) then (bh, i)
            else pop_loop C k (bh [i - 1 := bh ! (i1 - 1)]) val i1)
         else
           (if cmp C val (fst (bh ! (i2 - 1))) then (bh, i)
            else pop_loop C k (bh [i - 1 := bh ! (i2 - 1)]) val i2))"
  by pat_completeness auto
termination
  by (relation "measure (\<lambda>(C, k, bh, val, i). Suc k - i)") auto

definition heap_pop :: "heap_order \<Rightarrow> nat \<Rightarrow> heap \<Rightarrow> heap" where
  "heap_pop C k bh =
     (let val = fst (bh ! (k - 1)); (bh', i) = pop_loop C k bh val 1
      in bh' [i - 1 := bh' ! (k - 1)])"

text \<open>
  \<open>heap_heapify (k, bh, x, ids, k0)\<close> pushes the first \<open>k0\<close> input pairs and fills the cells
  \<open>k0..k-1\<close> with the neutral value and the label \<open>-1\<close>.  The input is read through \<open>src\<close>,
  which is given the current array: \<open>IndexRefineFlat::search\<close> passes the output arrays as
  the input when \<open>k_base = k\<close>, so that the pair \<open>i\<close> is read from the array being built.
\<close>

function heapify_loop :: "heap_order \<Rightarrow> (heap \<Rightarrow> nat \<Rightarrow> real \<times> int) \<Rightarrow> nat \<Rightarrow> nat \<Rightarrow> heap \<Rightarrow> heap" where
  "heapify_loop C src k0 i bh =
     (if i < k0 then
        heapify_loop C src k0 (i + 1) (heap_push C (i + 1) bh (fst (src bh i)) (snd (src bh i)))
      else bh)"
  by pat_completeness auto
termination
  by (relation "measure (\<lambda>(C, src, k0, i, bh). k0 - i)") auto

definition heap_heapify :: "heap_order \<Rightarrow> nat \<Rightarrow> heap \<Rightarrow> (heap \<Rightarrow> nat \<Rightarrow> real \<times> int) \<Rightarrow> nat \<Rightarrow> heap" where
  "heap_heapify C k bh src k0 =
     (let bh1 = heapify_loop C src k0 0 bh
      in take k0 bh1 @ replicate (k - k0) (neutral C, - 1) @ drop k bh1)"

text \<open>\<open>heap_addn\<close>: each further pair replaces the root when the root is strictly worse.\<close>

fun heap_addn :: "heap_order \<Rightarrow> nat \<Rightarrow> heap \<Rightarrow> (real \<times> int) list \<Rightarrow> heap" where
  "heap_addn C k bh [] = bh"
| "heap_addn C k bh ((v, l) # xs) =
     heap_addn C k (if cmp C (fst (bh ! 0)) v then heap_push C k (heap_pop C k bh) v l else bh) xs"

text \<open>
  \<open>heap_reorder\<close>: the root is popped \<open>k\<close> times and stored from the end of the array
  backwards; a popped pair with label \<open>-1\<close> does not advance \<open>ii\<close> and is overwritten by the
  next one.  Afterwards the \<open>ii\<close> true pairs are moved to the front and the rest is filled
  with the neutral value and \<open>-1\<close>.
\<close>

function reorder_loop :: "heap_order \<Rightarrow> nat \<Rightarrow> nat \<Rightarrow> nat \<Rightarrow> heap \<Rightarrow> heap \<times> nat" where
  "reorder_loop C k i ii bh =
     (if i < k then
        (let top = bh ! 0;
             bh1 = heap_pop C (k - i) bh;
             bh2 = bh1 [k - ii - 1 := top]
         in reorder_loop C k (i + 1) (if snd top \<noteq> - 1 then ii + 1 else ii) bh2)
      else (bh, ii))"
  by pat_completeness auto
termination
  by (relation "measure (\<lambda>(C, k, i, ii, bh). k - i)") auto

definition heap_reorder :: "heap_order \<Rightarrow> nat \<Rightarrow> heap \<Rightarrow> heap" where
  "heap_reorder C k bh =
     (let (bh1, ii) = reorder_loop C k 0 0 bh
      in take ii (drop (k - ii) bh1) @ replicate (k - ii) (neutral C, - 1) @ drop k bh1)"

declare push_loop.simps [simp del] pop_loop.simps [simp del] heapify_loop.simps [simp del]
  reorder_loop.simps [simp del]

section \<open>IndexFlat::search\<close>

text \<open>
  Modelled from the spec: \<open>knn_L2sqr\<close> and \<open>knn_inner_product\<close> (utils, not among the
  sources).  For one query the selector is seeded with \<open>k\<close> neutral pairs, every stored vector
  \<open>j = 0, ..., ny - 1\<close> is offered in label order and replaces the root when it is strictly
  better, and the heap is then reordered best to worst.
\<close>

fun heap_of :: "MetricType \<Rightarrow> heap_order" where
  "heap_of METRIC_L2 = CMax"
| "heap_of METRIC_INNER_PRODUCT = CMin"

function knn_scan :: "MetricType \<Rightarrow> nat \<Rightarrow> real list \<Rightarrow> real list \<Rightarrow> nat \<Rightarrow> nat \<Rightarrow> nat \<Rightarrow> heap \<Rightarrow> heap" where
  "knn_scan m dd q y ny k j bh =
     (if j < ny then
        (let dis = metric m q (vec_at dd y j)
         in knn_scan m dd q y ny k (j + 1)
              (if cmp (heap_of m) (fst (bh ! 0)) dis
               then heap_push (heap_of m) k (heap_pop (heap_of m) k bh) dis (int j) else bh))
      else bh)"
  by pat_completeness auto
termination
  by (relation "measure (\<lambda>(m, dd, q, y, ny, k, j, bh). ny - j)") auto

declare knn_scan.simps [simp del]

definition knn_query :: "MetricType \<Rightarrow> nat \<Rightarrow> real list \<Rightarrow> real list \<Rightarrow> nat \<Rightarrow> nat \<Rightarrow> heap" where
  "knn_query m dd q y ny k =
     heap_reorder (heap_of m) k
       (knn_scan m dd q y ny k 0 (replicate k (neutral (heap_of m), - 1)))"

text \<open>
  \<open>IndexFlat::search\<close>: one row of \<open>k\<close> (distance, label) pairs per query; row \<open>i\<close> is the
  slice \<open>[i * k, (i + 1) * k)\<close> of the output arrays.
\<close>

definition IndexFlat_search :: "nat \<Rightarrow> real list \<Rightarrow> nat \<Rightarrow> 'a IndexFlat_scheme \<Rightarrow> heap list" where
  "IndexFlat_search n x k s =
     map (\<lambda>i. knn_query (metric_type s) (d s) (vec_at (d s) x i) (xb s) (ntotal s) k) [0..<n]"

text \<open>
  Modelled from the spec: \<open>fvec_L2sqr_by_idx\<close> and \<open>fvec_inner_products_by_idx\<close> (utils, not
  among the sources), called by \<open>IndexFlat::compute_distance_subset\<close>: the exact metric
  value is written for each given label; a negative label is skipped and keeps the value
  it had; a label beyond the store reads outside the buffer.
\<close>

definition distance_by_idx :: "'a IndexFlat_scheme \<Rightarrow> real list \<Rightarrow> real \<times> int \<Rightarrow> error + real \<times> int" where
  "distance_by_idx s q e =
     (if snd e < 0 then Inr e
      else if (nat (snd e) + 1) * d s \<le> length (xb s)
      then Inr (metric (metric_type s) q (vec_at (d s) (xb s) (nat (snd e))), snd e)
      else Inl OutOfBounds)"

definition compute_distance_subset ::
  "nat \<Rightarrow> real list \<Rightarrow> heap list \<Rightarrow> 'a IndexFlat_scheme \<Rightarrow> error + heap list" where
  "compute_distance_subset n x rows s =
     collect (map (\<lambda>i. collect (map (distance_by_idx s (vec_at (d s) x i)) (rows ! i))) [0..<n])"

section \<open>IndexRefineFlat\<close>

text \<open>
  The coarse index is any \<open>Index\<close>: its state extends the fields of \<open>Index\<close>, and its virtual
  functions are the fields of a record.
\<close>

record 'b Index_vtable =
  v_train :: "nat \<Rightarrow> real list \<Rightarrow> 'b Index_scheme \<Rightarrow> error + 'b Index_scheme"
  v_add :: "nat \<Rightarrow> real list \<Rightarrow> 'b Index_scheme \<Rightarrow> error + 'b Index_scheme"
  v_search :: "nat \<Rightarrow> real list \<Rightarrow> nat \<Rightarrow> 'b Index_scheme \<Rightarrow> error + heap list"
  v_reset :: "'b Index_scheme \<Rightarrow> 'b Index_scheme"

record 'b IndexRefineFlat = Index +
  refine_index :: IndexFlat
  base_index :: "'b Index_scheme"
  own_fields :: bool
  k_factor :: real

text \<open>The constructor throws unless the coarse index is empty.\<close>

definition IndexRefineFlat_new :: "'b Index_scheme \<Rightarrow> error + 'b IndexRefineFlat" where
  "IndexRefineFlat_new base =
     (if ntotal base = 0 then
        Inr \<lparr> d = d base, ntotal = 0, is_trained = is_trained base, metric_type = metric_type base,
              refine_index = IndexFlat_new (d base) (metric_type base),
              base_index = base, own_fields = False, k_factor = 1 \<rparr>
      else Inl FaissException)"




text \<open>
  \<open>reorder_2_heaps\<close> for one query.  \<open>out\<close> is the slice of the output arrays and \<open>base\<close> the
  slice of the candidate arrays; when \<open>k_base = k\<close> the two are the same memory.
\<close>

definition reorder_2_heaps_query :: "heap_order \<Rightarrow> nat \<Rightarrow> nat \<Rightarrow> heap \<Rightarrow> heap \<Rightarrow> heap" where
  "reorder_2_heaps_query C k k_base out base =
     (let h1 = (if k_base = k then heap_heapify C k base (\<lambda>bh i. bh ! i) k
                else heap_heapify C k out (\<lambda>bh i. base ! i) k);
          h2 = (if k_base \<noteq> k then heap_addn C k h1 (take (k_base - k) (drop k base)) else h1)
      in take k (heap_reorder C k h2))"

text \<open>The conversion \<open>idx_t (k * k_factor)\<close> of a float to an integer discards the fraction.\<close>

definition float_to_idx :: "real \<Rightarrow> int" where
  "float_to_idx r = (if r \<ge> 0 then \<lfloor>r\<rfloor> else \<lceil>r\<rceil>)"

definition k_base_of :: "nat \<Rightarrow> real \<Rightarrow> int" where
  "k_base_of k kf = float_to_idx (real k * kf)"

definition labels_in_range :: "nat \<Rightarrow> heap list \<Rightarrow> bool" where
  "labels_in_range nt rows \<longleftrightarrow> (\<forall>row \<in> set rows. \<forall>e \<in> set row. - 1 \<le> snd e \<and> snd e < int nt)"

text \<open>
  \<open>IndexRefineFlat::search\<close>.  \<open>ndebug\<close> tells whether the translation unit is compiled with
  \<open>NDEBUG\<close>, which removes the \<open>assert\<close> on the candidate labels.  \<open>out\<close> holds what the
  caller's output arrays contain before the call (one row per query).  A negative \<open>k_base\<close>
  is the size of an allocation, and when \<open>k_base < k\<close> the heap is seeded from \<open>k\<close> cells of
  a slice that has only \<open>k_base\<close>: both are reads or writes outside the arrays.
\<close>

definition IndexRefineFlat_search ::
  "'b Index_vtable \<Rightarrow> bool \<Rightarrow> nat \<Rightarrow> real list \<Rightarrow> nat \<Rightarrow> heap list \<Rightarrow> 'b IndexRefineFlat \<Rightarrow> error + heap list" where
  "IndexRefineFlat_search vt ndebug n x k out s =
     (if \<not> is_trained s then Inl FaissException
      else
        (let k_base = k_base_of k (k_factor s)
         in if k_base < 0 then Inl OutOfBounds
            else
              (case v_search vt n x (nat k_base) (base_index s) of
                 Inl e \<Rightarrow> Inl e
               | Inr base \<Rightarrow>
                  if \<not> ndebug \<and> \<not> labels_in_range (ntotal s) base then Inl AssertFailure
                  else
                    (case compute_distance_subset n x base (refine_index s) of
                       Inl e \<Rightarrow> Inl e
                     | Inr refined \<Rightarrow>
                        if k_base < int k \<and> 0 < n then Inl OutOfBounds
                        else Inr (map (\<lambda>i. reorder_2_heaps_query (heap_of (metric_type s)) k (nat k_base)
                                              (out ! i) (refined ! i)) [0..<n])))))"

text \<open>\<open>IndexFlat\<close> as a coarse index: its virtual functions.\<close>

definition IndexFlat_vtable :: "\<lparr> xb :: real list \<rparr> Index_vtable" where
  "IndexFlat_vtable =
     \<lparr> v_train = (\<lambda>n x s. Inr s),
       v_add = (\<lambda>n x s. Inr (IndexFlat_add n x s)),
       v_search = (\<lambda>n x k s. Inr (IndexFlat_search n x k s)),
       v_reset = IndexFlat_reset \<rparr>"





text \<open>
  A coarse index that keeps no vectors and answers every query with the label \<open>-5\<close> and
  the distance 0: an index that breaks the label contract.
\<close>

definition broken_vtable :: "unit Index_vtable" where
  "broken_vtable =
     \<lparr> v_train = (\<lambda>n x s. Inr s),
       v_add = (\<lambda>n x s. Inr (s \<lparr> ntotal := ntotal s + n \<rparr>)),
       v_search = (\<lambda>n x k s. Inr (replicate n (replicate k (0, - 5)))),
       v_reset = (\<lambda>s. s \<lparr> ntotal := 0 \<rparr>) \<rparr>"

definition broken_refine :: "unit IndexRefineFlat" where
  "broken_refine =
     \<lparr> d = 1, ntotal = 0, is_trained = True, metric_type = METRIC_L2,
       refine_index = IndexFlat_new 1 METRIC_L2,
       base_index = \<lparr> d = 1, ntotal = 0, is_trained = True, metric_type = METRIC_L2 \<rparr>,
       own_fields = False, k_factor = 1 \<rparr>"

text \<open>A composite over a flat coarse index after one \<open>add\<close> of the vector \<open>(1)\<close>.\<close>

definition one_vector_refine :: "\<lparr> xb :: real list \<rparr> IndexRefineFlat" where
  "one_vector_refine =
     \<lparr> d = 1, ntotal = 1, is_trained = True, metric_type = METRIC_L2,
       refine_index = IndexFlat_add 1 [1] (IndexFlat_new 1 METRIC_L2),
       base_index = IndexFlat_add 1 [1] (IndexFlat_new 1 METRIC_L2),
       own_fields = False, k_factor = 1 \<rparr>"

text \<open>
  What the loops of \<open>IndexFlat1D::search\<close> need from the permutation: one entry per stored
  vector, every entry a position of the buffer, values non-decreasing along it.
  \<open>perm_val s i\<close> is the value \<open>xb[perm[i]]\<close>.
\<close>

definition perm_ok :: "IndexFlat1D \<Rightarrow> bool" where
  "perm_ok s \<longleftrightarrow>
     length (perm s) = ntotal s \<and> (\<forall>p \<in> set (perm s). p < length (xb s))
     \<and> sorted (map (\<lambda>p. xb s ! p) (perm s))"

definition perm_val :: "IndexFlat1D \<Rightarrow> int \<Rightarrow> real" where
  "perm_val s i = xb s ! (perm s ! nat i)"


section \<open>Heap invariants\<close>

text \<open>
  Both comparators order by one key: the value itself for \<open>CMax\<close>, its negation for \<open>CMin\<close>.
  \<open>cmp C a b\<close> holds exactly when the key of \<open>a\<close> is above the key of \<open>b\<close>; the root of a
  heap carries the largest key, and best to worst is increasing key.
\<close>

definition key :: "heap_order \<Rightarrow> real \<Rightarrow> real" where
  "key C v = (case C of CMax \<Rightarrow> v | CMin \<Rightarrow> - v)"

definition node_key :: "heap_order \<Rightarrow> heap \<Rightarrow> nat \<Rightarrow> real" where
  "node_key C bh i = key C (fst (bh ! (i - 1)))"

text \<open>The first \<open>m\<close> cells form a heap: no node has a key above its father's.\<close>

definition is_heap :: "heap_order \<Rightarrow> nat \<Rightarrow> heap \<Rightarrow> bool" where
  "is_heap C m bh \<longleftrightarrow>
     m \<le> length bh \<and> (\<forall>j. 2 \<le> j \<and> j \<le> m \<longrightarrow> node_key C bh j \<le> node_key C bh (j div 2))"

text \<open>
  The loop invariants of sift up and sift down: the heap order holds between all nodes
  other than the hole \<open>i\<close>, and the value \<open>v\<close> that will fill the hole fits against the
  nodes around it that have already been passed.
\<close>

definition hole_up :: "heap_order \<Rightarrow> nat \<Rightarrow> heap \<Rightarrow> real \<Rightarrow> nat \<Rightarrow> bool" where
  "hole_up C k bh v i \<longleftrightarrow>
     1 \<le> i \<and> i \<le> k \<and> k \<le> length bh
     \<and> (\<forall>j. 2 \<le> j \<and> j \<le> k \<and> j \<noteq> i \<and> j div 2 \<noteq> i \<longrightarrow> node_key C bh j \<le> node_key C bh (j div 2))
     \<and> (\<forall>j. 2 \<le> j \<and> j \<le> k \<and> j div 2 = i \<longrightarrow>
           node_key C bh j \<le> key C v \<and> (2 \<le> i \<longrightarrow> node_key C bh j \<le> node_key C bh (i div 2)))"

definition hole_down :: "heap_order \<Rightarrow> nat \<Rightarrow> heap \<Rightarrow> real \<Rightarrow> nat \<Rightarrow> bool" where
  "hole_down C k bh v i \<longleftrightarrow>
     1 \<le> i \<and> i \<le> k \<and> k \<le> length bh
     \<and> (\<forall>j. 2 \<le> j \<and> j \<le> k \<and> j \<noteq> i \<and> j div 2 \<noteq> i \<longrightarrow> node_key C bh j \<le> node_key C bh (j div 2))
     \<and> (2 \<le> i \<longrightarrow> key C v \<le> node_key C bh (i div 2)
           \<and> (\<forall>j. 2 \<le> j \<and> j \<le> k \<and> j div 2 = i \<longrightarrow> node_key C bh j \<le> node_key C bh (i div 2)))"

text \<open>A true element of a result: \<open>heap_reorder\<close> drops the pairs with label \<open>-1\<close>.\<close>

definition true_pair :: "real \<times> int \<Rightarrow> bool" where
  "true_pair e \<longleftrightarrow> snd e \<noteq> - 1"

text \<open>
  What the scan of \<open>knn_L2sqr\<close> and \<open>knn_inner_product\<close> keeps in the heap: neutral pairs,
  and stored labels with their metric value, each strictly better than the neutral value.
\<close>

definition cand_ok :: "MetricType \<Rightarrow> nat \<Rightarrow> real list \<Rightarrow> real list \<Rightarrow> nat \<Rightarrow> real \<times> int \<Rightarrow> bool" where
  "cand_ok m dd q y ny e \<longleftrightarrow>
     e = (neutral (heap_of m), - 1)
     \<or> (0 \<le> snd e \<and> nat (snd e) < ny \<and> fst e = metric m q (vec_at dd y (nat (snd e)))
        \<and> key (heap_of m) (fst e) < FLT_MAX)"




text \<open>
  A result of \<open>IndexFlat1D::search\<close> for one query that ends in \<open>m\<close> padded slots: finite
  distances with the labels \<open>lbls\<close> first, then \<open>m\<close> times the label \<open>-1\<close> with the distance
  \<open>+infinity\<close>.
\<close>

definition padded :: "nat \<Rightarrow> int multiset \<Rightarrow> error + (float \<times> int) list \<Rightarrow> bool" where
  "padded m lbls r \<longleftrightarrow>
     (\<exists>vs. r = Inr (vs @ replicate m (PosInf, - 1)) \<and> mset (map snd vs) = lbls
           \<and> (\<forall>e \<in> set vs. fst e \<noteq> PosInf))"

section \<open>Compaction\<close>

lemma length_memmove:
  "dst + n \<le> length b \<Longrightarrow> src + n \<le> length b \<Longrightarrow> length (memmove b dst src n) = length b"
  by (simp add: memmove_def)

lemma vec_at_memmove_above:
  assumes "dst + n \<le> t * n" "src + n \<le> length b" "dst + n \<le> length b"
  shows "vec_at n (memmove b dst src n) t = vec_at n b t"
proof -
  have "drop (dst + n) (memmove b dst src n) = drop (dst + n) b"
    using assms by (simp add: memmove_def)
  then have "drop (t * n - (dst + n)) (drop (dst + n) (memmove b dst src n))
      = drop (t * n - (dst + n)) (drop (dst + n) b)" by simp
  then have "drop (t * n) (memmove b dst src n) = drop (t * n) b"
    using assms(1) by simp
  then show ?thesis by (simp add: vec_at_def)
qed

lemma take_memmove:
  assumes "src + n \<le> length b" "dst + n \<le> length b"
  shows "take (dst + n) (memmove b dst src n) = take dst b @ take n (drop src b)"
  using assms by (simp add: memmove_def)

lemma remove_ids_loop_spec:
  assumes "length b = nt * dd" "j \<le> i" "i \<le> nt"
    and "remove_ids_loop sel dd nt i j b = (j', b')"
  shows "j' = j + length (filter (\<lambda>t. \<not> sel t) [i..<nt])
       \<and> length b' = length b
       \<and> take (j' * dd) b' = take (j * dd) b @ concat (map (vec_at dd b) (filter (\<lambda>t. \<not> sel t) [i..<nt]))"
  using assms
proof (induction sel dd nt i j b arbitrary: j' b' rule: remove_ids_loop.induct)
  case (1 sel dd nt i j b)
  show ?case
  proof (cases "i < nt")
    case False
    with "1.prems" show ?thesis by (simp add: remove_ids_loop.simps)
  next
    case True
    then have up: "[i..<nt] = i # [Suc i..<nt]" by (simp add: upt_conv_Cons)
    show ?thesis
    proof (cases "sel i")
      case True
      with \<open>i < nt\<close> "1.prems" have "remove_ids_loop sel dd nt (i + 1) j b = (j', b')"
        by (simp add: remove_ids_loop.simps[of sel dd nt i])
      from "1.IH"(1)[OF \<open>i < nt\<close> True "1.prems"(1) _ _ this] "1.prems" \<open>i < nt\<close>
      show ?thesis using True up by auto
    next
      case False
      define b1 where "b1 = (if i > j then memmove b (dd * j) (dd * i) dd else b)"
      have rng: "dd * i + dd \<le> length b" "dd * j + dd \<le> length b"
      proof -
        have "(i + 1) * dd \<le> nt * dd" using \<open>i < nt\<close> by (intro mult_le_mono1) simp
        then show "dd * i + dd \<le> length b" using "1.prems"(1) by (simp add: algebra_simps)
        have "(j + 1) * dd \<le> nt * dd" using \<open>i < nt\<close> \<open>j \<le> i\<close> by (intro mult_le_mono1) simp
        then show "dd * j + dd \<le> length b" using "1.prems"(1) by (simp add: algebra_simps)
      qed
      have len1: "length b1 = nt * dd"
        using rng "1.prems"(1) by (simp add: b1_def length_memmove)
      have call: "remove_ids_loop sel dd nt (i + 1) (j + 1) b1 = (j', b')"
        using False \<open>i < nt\<close> "1.prems"(4) by (simp add: remove_ids_loop.simps[of sel dd nt i] b1_def)
      have IH: "j' = (j + 1) + length (filter (\<lambda>t. \<not> sel t) [i + 1..<nt])
       \<and> length b' = length b1
       \<and> take (j' * dd) b' = take ((j + 1) * dd) b1 @ concat (map (vec_at dd b1) (filter (\<lambda>t. \<not> sel t) [i + 1..<nt]))"
        unfolding b1_def
        apply (rule "1.IH"(2)[OF \<open>i < nt\<close> False])
        using len1 call "1.prems"(2) \<open>i < nt\<close> by (simp_all add: b1_def)
      have head: "take ((j + 1) * dd) b1 = take (j * dd) b @ vec_at dd b i"
      proof (cases "i > j")
        case True
        then show ?thesis using take_memmove[OF rng(1) rng(2)]
          by (simp add: b1_def vec_at_def algebra_simps)
      next
        case False
        then have "b1 = b" "i = j" using "1.prems"(2) by (simp_all add: b1_def)
        moreover have "take (j * dd + dd) b = take (j * dd) b @ take dd (drop (j * dd) b)"
          by (rule take_add)
        moreover have "(j + 1) * dd = j * dd + dd" by simp
        ultimately show ?thesis by (simp only: vec_at_def)
      qed
      have tail: "vec_at dd b1 t = vec_at dd b t" if "t \<in> set [i + 1..<nt]" for t
      proof (cases "i > j")
        case True
        have "dd * j + dd \<le> t * dd"
        proof -
          have "(j + 1) * dd \<le> t * dd" using that True by (intro mult_le_mono1) simp
          then show ?thesis by (simp add: algebra_simps)
        qed
        then show ?thesis using True rng by (simp add: b1_def vec_at_memmove_above)
      next
        case False
        then show ?thesis by (simp add: b1_def)
      qed
      have meq: "map (vec_at dd b1) (filter (\<lambda>t. \<not> sel t) [i + 1..<nt]) = map (vec_at dd b) (filter (\<lambda>t. \<not> sel t) [i + 1..<nt])"
        by (rule map_cong) (use tail in auto)
      note IH' = IH[unfolded meq head]
      show ?thesis using IH' len1 "1.prems"(1) False up by auto
    qed
  qed
qed

lemma length_vec_at: "(i + 1) * dd \<le> length b \<Longrightarrow> length (vec_at dd b i) = dd"
proof -
  assume "(i + 1) * dd \<le> length b"
  then have "i * dd + dd \<le> length b" by simp
  then show ?thesis unfolding vec_at_def by simp
qed

lemma remove_ids_result:
  assumes "wf_store s" and "remove_ids sel s = (s', nremove)"
  shows "xb s' = concat (map (vec_at (d s) (xb s)) (kept sel (ntotal s)))"
    and "ntotal s' = length (kept sel (ntotal s))"
    and "nremove = length (filter sel [0..<ntotal s])"
    and "d s' = d s"
proof -
  obtain j b where loop: "remove_ids_loop sel (d s) (ntotal s) 0 0 (xb s) = (j, b)"
    by (cases "remove_ids_loop sel (d s) (ntotal s) 0 0 (xb s)")
  have len: "length (xb s) = ntotal s * d s" using assms(1) by (simp add: wf_store_def)
  from remove_ids_loop_spec[OF len _ _ loop]
  have j: "j = length (kept sel (ntotal s))"
    and lb: "length b = ntotal s * d s"
    and tk: "take (j * d s) b = concat (map (vec_at (d s) (xb s)) (kept sel (ntotal s)))"
    using len by (auto simp: kept_def)
  have jle: "j \<le> ntotal s" unfolding j kept_def
    using length_filter_le[of "\<lambda>i. \<not> sel i" "[0..<ntotal s]"] by simp
  have s': "s' = (if ntotal s - j > 0 then s \<lparr> xb := resize (j * d s) b, ntotal := j \<rparr> else s \<lparr> xb := b \<rparr>)"
    and nr: "nremove = ntotal s - j"
    using assms(2) loop by (auto simp: remove_ids_def Let_def split: if_splits)
  have "j * d s \<le> length b" using jle lb by simp
  then have rs: "resize (j * d s) b = take (j * d s) b" by (simp add: resize_def)
  show "d s' = d s" using s' by simp
  show "ntotal s' = length (kept sel (ntotal s))" using s' j jle by auto
  show "xb s' = concat (map (vec_at (d s) (xb s)) (kept sel (ntotal s)))"
  proof (cases "ntotal s - j > 0")
    case True
    then show ?thesis using s' rs tk by simp
  next
    case False
    then have "j = ntotal s" using jle by simp
    then have "take (j * d s) b = b" using lb by simp
    then show ?thesis using s' False tk by simp
  qed
  have "length (filter sel [0..<ntotal s]) + length (filter (\<lambda>i. \<not> sel i) [0..<ntotal s]) = length [0..<ntotal s]"
    by (rule sum_length_filter_compl)
  then show "nremove = length (filter sel [0..<ntotal s])" using nr j by (simp add: kept_def)
qed

lemma length_concat_vecs:
  assumes "\<forall>k \<in> set ks. length (f k) = dd"
  shows "length (concat (map f ks)) = length ks * dd"
  using assms by (induction ks) auto

lemma vec_at_concat:
  assumes "\<forall>k \<in> set ks. length (f k) = dd" and "p < length ks"
  shows "vec_at dd (concat (map f ks)) p = f (ks ! p)"
  using assms
proof (induction ks arbitrary: p)
  case Nil
  then show ?case by simp
next
  case (Cons k ks)
  show ?case
  proof (cases p)
    case 0
    then show ?thesis using Cons.prems by (simp add: vec_at_def)
  next
    case (Suc p')
    then have "vec_at dd (concat (map f (k # ks))) p = vec_at dd (concat (map f ks)) p'"
      using Cons.prems by (simp add: vec_at_def)
    then show ?thesis using Cons Suc by simp
  qed
qed

lemma kept_vec_length:
  assumes "wf_store s"
  shows "\<forall>k \<in> set (kept sel (ntotal s)). length (vec_at (d s) (xb s) k) = d s"
proof
  fix k assume "k \<in> set (kept sel (ntotal s))"
  then have "k < ntotal s" by (simp add: kept_def)
  then have "(k + 1) * d s \<le> ntotal s * d s" by (intro mult_le_mono1) simp
  then show "length (vec_at (d s) (xb s) k) = d s"
    using assms by (simp add: wf_store_def length_vec_at del: mult_Suc)
qed

lemma kept_nth:
  assumes "i < nt" "\<not> sel i"
  shows "length (filter sel [0..<i]) \<le> i"
    and "i - length (filter sel [0..<i]) < length (kept sel nt)"
    and "kept sel nt ! (i - length (filter sel [0..<i])) = i"
proof -
  have split: "[0..<nt] = [0..<i] @ i # [Suc i..<nt]"
    using assms(1) by (metis le_add2 le_add_same_cancel2 less_imp_add_positive upt_add_eq_append upt_conv_Cons)
  have cnt: "length (filter sel [0..<i]) + length (filter (\<lambda>t. \<not> sel t) [0..<i]) = i"
    using sum_length_filter_compl[of sel "[0..<i]"] by simp
  then show "length (filter sel [0..<i]) \<le> i" by simp
  from cnt have p: "i - length (filter sel [0..<i]) = length (filter (\<lambda>t. \<not> sel t) [0..<i])" by simp
  have k: "kept sel nt = filter (\<lambda>t. \<not> sel t) [0..<i] @ i # filter (\<lambda>t. \<not> sel t) [Suc i..<nt]"
    unfolding kept_def using assms(2) by (subst split) simp
  show "i - length (filter sel [0..<i]) < length (kept sel nt)" unfolding p k by simp
  show "kept sel nt ! (i - length (filter sel [0..<i])) = i" unfolding p k by simp
qed

text \<open>
  Claim C4.  On a store that satisfies the buffer invariant, \<open>remove_ids\<close> keeps exactly
  the vectors whose labels do not satisfy the predicate, in their original relative order
  (the new buffer is the concatenation of the kept vectors in increasing label order), sets
  \<open>ntotal\<close> to the number kept, leaves the buffer with \<open>ntotal * d\<close> floats, and returns
  the number of labels removed.
\<close>

theorem remove_ids_compaction:
  assumes "wf_store s" and "remove_ids sel s = (s', nremove)"
  shows "xb s' = concat (map (vec_at (d s) (xb s)) (kept sel (ntotal s)))
       \<and> ntotal s' = length (kept sel (ntotal s))
       \<and> length (xb s') = ntotal s' * d s'
       \<and> nremove = length (filter sel [0..<ntotal s])
       \<and> nremove = ntotal s - ntotal s'"
proof -
  note r = remove_ids_result[OF assms]
  have "length (xb s') = length (kept sel (ntotal s)) * d s"
    unfolding r(1) by (rule length_concat_vecs) (rule kept_vec_length[OF assms(1)])
  moreover have "length (filter sel [0..<ntotal s]) + length (kept sel (ntotal s)) = ntotal s"
    unfolding kept_def using sum_length_filter_compl[of sel "[0..<ntotal s]"] by simp
  ultimately show ?thesis using r by simp
qed

text \<open>
  The scenario of the specification: vectors \<open>(0,0)\<close>, \<open>(2,0)\<close>, \<open>(0,3)\<close> with labels
  0, 1, 2; removing label 1 leaves \<open>(0,0)\<close>, \<open>(0,3)\<close> in that order and returns 1.
\<close>

theorem remove_ids_compaction_witness:
  "wf_store (IndexFlat_add 3 [0, 0, 2, 0, 0, 3] (IndexFlat_new 2 METRIC_L2))
   \<and> remove_ids (\<lambda>i. i = 1) (IndexFlat_add 3 [0, 0, 2, 0, 0, 3] (IndexFlat_new 2 METRIC_L2))
       = (\<lparr> d = 2, ntotal = 2, is_trained = True, metric_type = METRIC_L2, xb = [0, 0, 0, 3] \<rparr>, 1)
   \<and> [0, 0, 0, 3] = concat (map (vec_at 2 [0, 0, 2, 0, 0, 3]) (kept (\<lambda>i. i = 1) 3))
   \<and> (2::nat) = length (kept (\<lambda>i. i = 1) 3)"
proof -
  let ?s = "IndexFlat_add 3 [0, 0, 2, 0, 0, 3] (IndexFlat_new 2 METRIC_L2)"
  let ?s' = "\<lparr> d = 2, ntotal = 2, is_trained = True, metric_type = METRIC_L2, xb = [0, 0, 0, 3] \<rparr>"
  have wf: "wf_store ?s"
    by (simp add: wf_store_def IndexFlat_add_def IndexFlat_new_def)
  have ev: "remove_ids (\<lambda>i. i = 1) ?s = (?s', 1)"
    by (simp add: remove_ids_def IndexFlat_add_def IndexFlat_new_def remove_ids_loop.simps
        memmove_def resize_def)
  show ?thesis
    using remove_ids_compaction[OF wf ev] wf ev
    by (simp add: IndexFlat_add_def IndexFlat_new_def)
qed

lemma remove_ids_reconstruct:
  assumes "wf_store s" and "remove_ids sel s = (s', nremove)"
    and "i < ntotal s" and "\<not> sel i"
  shows "reconstruct (int (i - length (filter sel [0..<i]))) s' = Inr (vec_at (d s) (xb s) i)
       \<and> reconstruct (int i) s = Inr (vec_at (d s) (xb s) i)
       \<and> i - length (filter sel [0..<i]) < ntotal s'"
proof -
  note r = remove_ids_result[OF assms(1,2)]
  note k = kept_nth[of i "ntotal s" sel, OF assms(3,4)]
  note vl = kept_vec_length[OF assms(1), of sel]
  let ?p = "i - length (filter sel [0..<i])"
  have lt: "?p < ntotal s'" using k(2) r(2) by simp
  have len': "length (xb s') = ntotal s' * d s"
    unfolding r(1) r(2) by (rule length_concat_vecs) (rule vl)
  have "(?p + 1) * d s \<le> ntotal s' * d s" using lt by (intro mult_le_mono1) simp
  then have in': "(?p + 1) * d s' \<le> length (xb s')" using len' r(4) by simp
  have "vec_at (d s) (xb s') ?p = vec_at (d s) (xb s) (kept sel (ntotal s) ! ?p)"
    unfolding r(1) by (rule vec_at_concat) (use vl k(2) in auto)
  then have new: "reconstruct (int ?p) s' = Inr (vec_at (d s) (xb s) i)"
    using in' k(3) r(4) by (simp add: reconstruct_def del: mult_Suc)
  have "(i + 1) * d s \<le> ntotal s * d s" using assms(3) by (intro mult_le_mono1) simp
  then have old: "reconstruct (int i) s = Inr (vec_at (d s) (xb s) i)"
    using assms(1) by (simp add: reconstruct_def wf_store_def del: mult_Suc)
  show ?thesis using new old lt by simp
qed

section \<open>IndexFlat1D: the scenario, the empty store, the permutation check\<close>

lemmas axis_eval =
  IndexFlat1D_search_def update_permutation_def IndexFlat1D_add_def IndexFlat1D_new_def
  IndexFlat_add_def fvec_argsort_def upt_rec search_query_def xbp_def bsearch.simps
  expand.simps finish_left.simps finish_right.simps emit_def label_def Let_def

text \<open>
  Claim C8, as the specification states it, fails: for the values \<open>[5, 1, 3]\<close> (permutation
  \<open>[1, 2, 0]\<close>), query 4 and \<open>k = 2\<close> the labels are not \<open>[2, 0]\<close>.
\<close>

theorem axis_scenario_counterexample:
  "IndexFlat1D_search 1 [4] 2
     (update_permutation (IndexFlat1D_add 3 [5, 1, 3] (IndexFlat1D_new False)))
   \<noteq> Inr [[(Finite 1, 2), (Finite 1, 0)]]"
  by (simp add: axis_eval)

text \<open>
  Claim C8, amended.  The binary search stops with the left frontier at value 3 (label 2)
  and the right frontier at value 5 (label 0); both are at distance 1 from the query, the
  comparison \<open>q - xleft < xright - q\<close> is strict, so the right candidate is written first:
  the labels are \<open>[0, 2]\<close> and the distances \<open>[1, 1]\<close>.
\<close>

theorem axis_scenario:
  "perm (update_permutation (IndexFlat1D_add 3 [5, 1, 3] (IndexFlat1D_new False))) = [1, 2, 0]
   \<and> bsearch (update_permutation (IndexFlat1D_add 3 [5, 1, 3] (IndexFlat1D_new False))) 4 0 3
       = Inr (1, 2)
   \<and> IndexFlat1D_search 1 [4] 2
       (update_permutation (IndexFlat1D_add 3 [5, 1, 3] (IndexFlat1D_new False)))
     = Inr [[(Finite 1, 0), (Finite 1, 2)]]"
  by (simp add: axis_eval)

text \<open>
  The tie rule in general: when both frontier reads succeed and the two differences are equal,
  the slot at \<open>wp\<close> receives the right-frontier candidate.
\<close>

lemma expand_tie_right:
  assumes "wp < k" and "xbp s i0 = Inr xleft" and "xbp s i1 = Inr xright"
    and "q - xleft = xright - q"
  shows "\<exists>rest. expand s q k i0 i1 wp = emit (Finite (xright - q), label s i1) rest"
  using assms by (subst expand.simps) auto

text \<open>
  Claim C3 at the empty store.  The freshly constructed index is in the \<open>Sorted\<close> state and
  passes the permutation check, but the query loop starts by reading \<open>xb[perm[0]]\<close>, which
  does not exist: no slot is padded.
\<close>

theorem axis_search_empty_store:
  "Sorted (IndexFlat1D_new cu) \<and> ntotal (IndexFlat1D_new cu) = 0
   \<and> IndexFlat1D_search 1 [q] k (IndexFlat1D_new cu) = Inl OutOfBounds"
  by (simp add: Sorted_def IndexFlat1D_search_def IndexFlat1D_new_def search_query_def xbp_def)

text \<open>
  Claim C7, as stated, fails.  Sort \<open>[5, 1, 3]\<close>, remove label 0 and add the value 0 without
  continuous update: the store is \<open>[1, 3, 0]\<close>, the permutation is still \<open>[1, 2, 0]\<close>, the
  state is \<open>Dirty\<close>, the lengths agree, and the search runs on the stale permutation.
\<close>

theorem axis_dirty_counterexample:
  "Dirty (IndexFlat1D_add 1 [0] (fst (remove_ids (\<lambda>i. i = 0)
      (update_permutation (IndexFlat1D_add 3 [5, 1, 3] (IndexFlat1D_new False))))))
   \<and> IndexFlat1D_search 1 [5] 3
       (IndexFlat1D_add 1 [0] (fst (remove_ids (\<lambda>i. i = 0)
          (update_permutation (IndexFlat1D_add 3 [5, 1, 3] (IndexFlat1D_new False))))))
     = Inr [[(Finite 4, 0), (Finite 5, 2), (Finite 2, 1)]]"
proof -
  let ?s = "update_permutation (IndexFlat1D_add 3 [5, 1, 3] (IndexFlat1D_new False))"
  let ?t = "\<lparr> d = 1, ntotal = 3, is_trained = True, metric_type = METRIC_L2, xb = [1, 3, 0],
             continuous_update = False, perm = [1, 2, 0] \<rparr>"
  have s: "?s = \<lparr> d = 1, ntotal = 3, is_trained = True, metric_type = METRIC_L2, xb = [5, 1, 3],
             continuous_update = False, perm = [1, 2, 0] \<rparr>"
    by (simp add: axis_eval)
  have t: "IndexFlat1D_add 1 [0] (fst (remove_ids (\<lambda>i. i = 0) ?s)) = ?t"
    unfolding s
    by (simp add: remove_ids_def remove_ids_loop.simps memmove_def resize_def
        IndexFlat1D_add_def IndexFlat_add_def)
  have "Dirty ?t" by (simp add: Dirty_def Sorted_def)
  moreover have "IndexFlat1D_search 1 [5] 3 ?t = Inr [[(Finite 4, 0), (Finite 5, 2), (Finite 2, 1)]]"
    by (simp add: axis_eval)
  ultimately show ?thesis unfolding t by simp
qed

text \<open>
  Claim C7, amended.  The search checks \<open>perm.size() == ntotal\<close> and nothing else: it fails
  with the exception whenever the two differ, in particular after an \<open>add\<close> of at least one
  vector, without continuous update and without a refresh, to an index whose permutation
  is not longer than its store.
\<close>

theorem axis_search_size_check:
  "(length (perm s) \<noteq> ntotal s \<longrightarrow> IndexFlat1D_search n x k s = Inl FaissException)
   \<and> (\<not> continuous_update s \<and> length (perm s) \<le> ntotal s \<and> 0 < m
        \<longrightarrow> IndexFlat1D_search n x k (IndexFlat1D_add m v s) = Inl FaissException)"
  by (simp add: IndexFlat1D_search_def IndexFlat1D_add_def IndexFlat_add_def)

theorem axis_search_size_check_witness:
  "\<not> continuous_update (IndexFlat1D_new False)
   \<and> length (perm (IndexFlat1D_new False)) \<le> ntotal (IndexFlat1D_new False) \<and> (0::nat) < 1
   \<and> length (perm (IndexFlat1D_add 1 [5] (IndexFlat1D_new False)))
       \<noteq> ntotal (IndexFlat1D_add 1 [5] (IndexFlat1D_new False))
   \<and> IndexFlat1D_search 1 [4] 1 (IndexFlat1D_add 1 [5] (IndexFlat1D_new False)) = Inl FaissException"
  using axis_search_size_check[of "IndexFlat1D_new False" 1 "[4]" 1 1 "[5]"]
    axis_search_size_check[of "IndexFlat1D_add 1 [5] (IndexFlat1D_new False)" 1 "[4]" 1 1 "[5]"]
  by (simp add: IndexFlat1D_new_def IndexFlat1D_add_def IndexFlat_add_def)

section \<open>IndexRefineFlat: candidate count, label validation, lockstep\<close>




text \<open>
  Claim C6, as stated, fails: in a build with \<open>NDEBUG\<close> the composite over a coarse index
  that answers with the label \<open>-5\<close> returns that label, with the coarse distance, as a result.
\<close>

theorem refine_validation_counterexample:
  "IndexRefineFlat_new \<lparr> d = 1, ntotal = 0, is_trained = True, metric_type = METRIC_L2 \<rparr>
     = Inr broken_refine
   \<and> \<not> labels_in_range (ntotal broken_refine) [[(0, - 5)]]
   \<and> v_search broken_vtable 1 [0] 1 (base_index broken_refine) = Inr [[(0, - 5)]]
   \<and> IndexRefineFlat_search broken_vtable True 1 [0] 1 [[(0, 0)]] broken_refine = Inr [[(0, - 5)]]"
  by code_simp

text \<open>
  Claim C6, amended.  The range check on the candidate labels is an \<open>assert\<close>: in a build
  without \<open>NDEBUG\<close> a candidate label outside \<open>[-1, ntotal)\<close> stops the search with an
  assertion failure; when every label is in range the check changes nothing; with \<open>NDEBUG\<close>
  it is absent.
\<close>

theorem refine_validation_debug_only:
  "(is_trained s \<and> 0 \<le> k_base_of k (k_factor s)
      \<and> v_search vt n x (nat (k_base_of k (k_factor s))) (base_index s) = Inr base
      \<and> \<not> labels_in_range (ntotal s) base
     \<longrightarrow> IndexRefineFlat_search vt False n x k out s = Inl AssertFailure)
   \<and> (v_search vt n x (nat (k_base_of k (k_factor s))) (base_index s) = Inr base
      \<and> labels_in_range (ntotal s) base
     \<longrightarrow> IndexRefineFlat_search vt False n x k out s = IndexRefineFlat_search vt True n x k out s)"
  by (simp add: IndexRefineFlat_search_def Let_def)

theorem refine_validation_debug_only_witness:
  "is_trained broken_refine \<and> 0 \<le> k_base_of 1 (k_factor broken_refine)
   \<and> v_search broken_vtable 1 [0] (nat (k_base_of 1 (k_factor broken_refine))) (base_index broken_refine)
       = Inr [[(0, - 5)]]
   \<and> \<not> labels_in_range (ntotal broken_refine) [[(0, - 5)]]
   \<and> IndexRefineFlat_search broken_vtable False 1 [0] 1 [[(0, 0)]] broken_refine = Inl AssertFailure
   \<and> v_search IndexFlat_vtable 1 [0] (nat (k_base_of 1 (k_factor one_vector_refine)))
         (base_index one_vector_refine) = Inr [[(1, 0)]]
   \<and> labels_in_range (ntotal one_vector_refine) [[(1, 0)]]
   \<and> IndexRefineFlat_search IndexFlat_vtable False 1 [0] 1 [[(0, 0)]] one_vector_refine
       = IndexRefineFlat_search IndexFlat_vtable True 1 [0] 1 [[(0, 0)]] one_vector_refine"
proof -
  have a: "is_trained broken_refine" "0 \<le> k_base_of 1 (k_factor broken_refine)"
    "v_search broken_vtable 1 [0] (nat (k_base_of 1 (k_factor broken_refine))) (base_index broken_refine)
       = Inr [[(0, - 5)]]"
    "\<not> labels_in_range (ntotal broken_refine) [[(0, - 5)]]"
    by code_simp+
  have b: "v_search IndexFlat_vtable 1 [0] (nat (k_base_of 1 (k_factor one_vector_refine)))
         (base_index one_vector_refine) = Inr [[(1, 0)]]"
    "labels_in_range (ntotal one_vector_refine) [[(1, 0)]]"
    by code_simp+
  show ?thesis
    using refine_validation_debug_only[of broken_refine 1 broken_vtable 1 "[0]" "[[(0, - 5)]]" "[[(0, 0)]]"]
      refine_validation_debug_only[of one_vector_refine 1 IndexFlat_vtable 1 "[0]" "[[(1, 0)]]" "[[(0, 0)]]"]
      a b
    by simp
qed






section \<open>IndexFlat1D: results are ordered\<close>

lemma Sorted_perm_ok: "Sorted s \<Longrightarrow> perm_ok s"
proof -
  assume a: "Sorted s"
  then have srt: "sort (perm s) = [0..<ntotal s]" and len: "length (xb s) = ntotal s"
    and sd: "sorted (map (\<lambda>p. xb s ! p) (perm s))"
    by (simp_all add: Sorted_def)
  have "length (sort (perm s)) = length (perm s)" by simp
  then have l: "length (perm s) = ntotal s" unfolding srt by simp
  have "set (sort (perm s)) = set (perm s)" by simp
  then have "set (perm s) = {0..<ntotal s}" unfolding srt by simp
  then show ?thesis using l len sd by (simp add: perm_ok_def)
qed

lemma xbp_ok:
  assumes "perm_ok s" "0 \<le> i" "i < int (ntotal s)"
  shows "xbp s i = Inr (perm_val s i)"
proof -
  have "nat i < length (perm s)" using assms by (simp add: perm_ok_def)
  moreover from this have "perm s ! nat i < length (xb s)"
    using assms(1) by (simp add: perm_ok_def)
  ultimately show ?thesis using assms(2) by (simp add: xbp_def perm_val_def)
qed









lemma bsearch_ok:
  assumes "perm_ok s" "0 \<le> i0" "i0 < i1" "i1 \<le> int (ntotal s)" "perm_val s i0 \<le> q"
  shows "\<exists>j. bsearch s q i0 i1 = Inr (j, j + 1) \<and> 0 \<le> j \<and> j < int (ntotal s) \<and> perm_val s j \<le> q"
  using assms
proof (induction s q i0 i1 rule: bsearch.induct)
  case (1 s q i0 i1)
  note ok = "1.prems"(1)
  show ?case
  proof (cases "i0 + 1 < i1")
    case False
    then have "i1 = i0 + 1" using "1.prems" by simp
    then show ?thesis using "1.prems" by (subst bsearch.simps) simp
  next
    case True
    define imed where "imed = (i0 + i1) div 2"
    have im: "i0 < imed" "imed < i1" using True by (simp_all add: imed_def)
    have rd: "xbp s imed = Inr (perm_val s imed)"
      using xbp_ok[OF ok, of imed] im "1.prems" by simp
    show ?thesis
    proof (cases "perm_val s imed \<le> q")
      case le: True
      have "\<exists>j. bsearch s q imed i1 = Inr (j, j + 1) \<and> 0 \<le> j \<and> j < int (ntotal s) \<and> perm_val s j \<le> q"
        using "1.IH"(1)[OF True imed_def rd le ok] im "1.prems" le by simp
      then show ?thesis using True rd le
        by (subst bsearch.simps) (simp add: imed_def[symmetric] Let_def)
    next
      case gt: False
      have "\<exists>j. bsearch s q i0 imed = Inr (j, j + 1) \<and> 0 \<le> j \<and> j < int (ntotal s) \<and> perm_val s j \<le> q"
        using "1.IH"(2)[OF True imed_def rd gt ok] im "1.prems" by simp
      then show ?thesis using True rd gt
        by (subst bsearch.simps) (simp add: imed_def[symmetric] Let_def)
    qed
  qed
qed


lemma collect_all:
  assumes "\<forall>r \<in> set rs. \<exists>v. r = Inr v \<and> P v"
  shows "\<exists>out. collect rs = Inr out \<and> length out = length rs \<and> (\<forall>v \<in> set out. P v)"
  using assms
proof (induction rs)
  case Nil
  then show ?case by simp
next
  case (Cons r rs)
  then obtain v where "r = Inr v" "P v" by auto
  moreover from Cons obtain out where "collect rs = Inr out" "length out = length rs" "\<forall>v \<in> set out. P v"
    by auto
  ultimately show ?case by simp
qed


section \<open>The heap primitives keep the heap and its contents\<close>

lemma cmp_key: "cmp C a b \<longleftrightarrow> key C b < key C a"
  by (cases C) (auto simp: key_def)

lemma node_key_update:
  "i - Suc 0 < length bh \<Longrightarrow> Suc 0 \<le> i \<Longrightarrow> Suc 0 \<le> j \<Longrightarrow>
   node_key C (bh [i - Suc 0 := e]) j = (if j = i then key C (fst e) else node_key C bh j)"
  by (auto simp: node_key_def nth_list_update)

lemma mset_take_swap_hole:
  assumes "1 \<le> f" "f \<le> k" "1 \<le> i" "i \<le> k" "f \<noteq> i" "k \<le> length bh"
  shows "mset (take k ((bh [i - 1 := bh ! (f - 1)]) [f - 1 := e])) = mset (take k (bh [i - 1 := e]))"
proof -
  let ?a = "(take k bh) [i - 1 := e]"
  have la: "length ?a = k" using assms by simp
  have "take k ((bh [i - 1 := bh ! (f - 1)]) [f - 1 := e])
        = ((take k bh) [i - 1 := bh ! (f - 1)]) [f - 1 := e]"
    using assms by (simp add: take_update_swap)
  also have "\<dots> = ?a [i - 1 := ?a ! (f - 1), f - 1 := ?a ! (i - 1)]"
    using assms by (simp add: nth_list_update list_update_swap)
  also have "mset \<dots> = mset ?a"
    using assms la by (intro mset_swap) simp_all
  finally show ?thesis using assms by (simp add: take_update_swap)
qed

lemma hole_up_stop:
  assumes "hole_up C k bh v i" and "i \<le> 1 \<or> \<not> cmp C v (fst (bh ! (i div 2 - 1)))"
  shows "is_heap C k (bh [i - 1 := (v, l)])"
proof -
  from assms(1) have rng: "1 \<le> i" "i \<le> k" "k \<le> length bh"
    and h1: "\<And>j. 2 \<le> j \<Longrightarrow> j \<le> k \<Longrightarrow> j \<noteq> i \<Longrightarrow> j div 2 \<noteq> i \<Longrightarrow> node_key C bh j \<le> node_key C bh (j div 2)"
    and h2: "\<And>j. 2 \<le> j \<Longrightarrow> j \<le> k \<Longrightarrow> j div 2 = i \<Longrightarrow> node_key C bh j \<le> key C v"
    by (auto simp: hole_up_def)
  have il: "i - 1 < length bh" using rng by simp
  have "node_key C (bh [i - 1 := (v, l)]) j \<le> node_key C (bh [i - 1 := (v, l)]) (j div 2)"
    if j: "2 \<le> j" "j \<le> k" for j
  proof -
    have j2: "1 \<le> j div 2" "1 \<le> j" using j by simp_all
    consider "j = i" | "j \<noteq> i" "j div 2 = i" | "j \<noteq> i" "j div 2 \<noteq> i" by blast
    then show ?thesis
    proof cases
      case 1
      then have "j div 2 \<noteq> i" using j by simp
      moreover have "key C v \<le> node_key C bh (i div 2)"
        using assms(2) 1 j by (simp add: cmp_key node_key_def)
      ultimately show ?thesis using 1 il rng j2 by (simp add: node_key_update)
    next
      case 2
      then show ?thesis using h2[OF j] il rng j2 by (simp add: node_key_update)
    next
      case 3
      then show ?thesis using h1[OF j] il rng j2 by (simp add: node_key_update)
    qed
  qed
  then show ?thesis using rng by (simp add: is_heap_def)
qed

lemma hole_up_step:
  assumes "hole_up C k bh v i" and "1 < i" and "cmp C v (fst (bh ! (i div 2 - 1)))"
  shows "hole_up C k (bh [i - 1 := bh ! (i div 2 - 1)]) v (i div 2)"
proof -
  let ?f = "i div 2"
  let ?b = "bh [i - 1 := bh ! (?f - 1)]"
  from assms(1) have rng: "1 \<le> i" "i \<le> k" "k \<le> length bh"
    and h1: "\<And>j. 2 \<le> j \<Longrightarrow> j \<le> k \<Longrightarrow> j \<noteq> i \<Longrightarrow> j div 2 \<noteq> i \<Longrightarrow> node_key C bh j \<le> node_key C bh (j div 2)"
    and h2: "\<And>j. 2 \<le> j \<Longrightarrow> j \<le> k \<Longrightarrow> j div 2 = i \<Longrightarrow> node_key C bh j \<le> node_key C bh (i div 2)"
    using assms(2) by (auto simp: hole_up_def)
  have f: "1 \<le> ?f" "?f < i" using assms(2) by simp_all
  have il: "i - 1 < length bh" using rng by simp
  have nk: "node_key C ?b j = (if j = i then node_key C bh ?f else node_key C bh j)" if "1 \<le> j" for j
    using node_key_update[of i bh j C "bh ! (?f - 1)"] il rng(1) that by (simp add: node_key_def)
  have fv: "node_key C bh ?f < key C v" using assms(3) by (simp add: cmp_key node_key_def)
  have c1: "node_key C ?b j \<le> node_key C ?b (j div 2)"
    if j: "2 \<le> j" "j \<le> k" "j \<noteq> ?f" "j div 2 \<noteq> ?f" for j
  proof -
    have j2: "1 \<le> j div 2" "1 \<le> j" using j by simp_all
    have ji: "j \<noteq> i" using j(4) by auto
    show ?thesis
    proof (cases "j div 2 = i")
      case True
      then show ?thesis using h2[OF j(1,2) True] ji j2 nk[of j] nk[of "j div 2"] by simp
    next
      case False
      then show ?thesis using h1[OF j(1,2) ji False] ji j2 nk[of j] nk[of "j div 2"] by simp
    qed
  qed
  have c2: "node_key C ?b j \<le> key C v \<and> (2 \<le> ?f \<longrightarrow> node_key C ?b j \<le> node_key C ?b (?f div 2))"
    if j: "2 \<le> j" "j \<le> k" "j div 2 = ?f" for j
  proof -
    have j1: "1 \<le> j" using j by simp
    have ff: "?f div 2 \<noteq> i" "?f \<noteq> i" using f by simp_all
    have up: "node_key C bh ?f \<le> node_key C bh (?f div 2)" if "2 \<le> ?f"
      using h1[OF that _ ff(2) ff(1)] f rng by simp
    have jf: "node_key C ?b j \<le> node_key C bh ?f"
    proof (cases "j = i")
      case True
      then show ?thesis using j1 nk[of j] by simp
    next
      case False
      have "j div 2 \<noteq> i" using j(3) f by simp
      from h1[OF j(1,2) False this] show ?thesis using False j1 j(3) nk[of j] by simp
    qed
    have "node_key C ?b (?f div 2) = node_key C bh (?f div 2)" if "2 \<le> ?f"
      using that ff nk[of "?f div 2"] by simp
    then show ?thesis using jf fv up by auto
  qed
  show ?thesis unfolding hole_up_def using f rng c1 c2 by simp
qed

lemma push_loop_props:
  assumes "hole_up C k bh v i" and "push_loop C bh v i = (bh', i')"
  shows "is_heap C k (bh' [i' - 1 := (v, l)]) \<and> length bh' = length bh
      \<and> drop k bh' = drop k bh \<and> mset (take k (bh' [i' - 1 := e])) = mset (take k (bh [i - 1 := e]))
      \<and> 1 \<le> i' \<and> i' \<le> i"
  using assms
proof (induction C bh v i arbitrary: bh' i' rule: push_loop.induct)
  case (1 C bh val i)
  from "1.prems"(1) have rng: "1 \<le> i" "i \<le> k" "k \<le> length bh" by (auto simp: hole_up_def)
  let ?f = "i div 2"
  show ?case
  proof (cases "1 < i \<and> cmp C val (fst (bh ! (?f - 1)))")
    case False
    then have stop: "i \<le> 1 \<or> \<not> cmp C val (fst (bh ! (?f - 1)))" by auto
    then have res: "bh' = bh \<and> i' = i"
      using "1.prems"(2) by (subst (asm) push_loop.simps) (auto simp: Let_def split: if_splits)
    have "is_heap C k (bh [i - 1 := (val, l)])"
      by (rule hole_up_stop[OF "1.prems"(1) stop])
    then show ?thesis using res rng by simp
  next
    case True
    then have go: "1 < i" "cmp C val (fst (bh ! (?f - 1)))" by simp_all
    let ?b = "bh [i - 1 := bh ! (?f - 1)]"
    have call: "push_loop C ?b val ?f = (bh', i')"
      using "1.prems"(2) go by (subst (asm) push_loop.simps) (simp add: Let_def)
    have hu: "hole_up C k ?b val ?f" by (rule hole_up_step[OF "1.prems"(1) go])
    have nc: "\<not> \<not> cmp C val (fst (bh ! (?f - 1)))" using go by simp
    note IH = "1.IH"[OF go(1) refl nc hu call]
    have f: "1 \<le> ?f" "?f < i" using go(1) by simp_all
    show ?thesis
      using IH mset_take_swap_hole[of ?f k i bh e] rng go(1) f by auto
  qed
qed

lemma take_update_last:
  assumes "1 \<le> k" "k \<le> length bh"
  shows "take k (bh [k - 1 := e]) = take (k - 1) bh @ [e]"
proof -
  have "take k (bh [k - 1 := e]) = (take k bh) [k - 1 := e]"
    using assms by (simp add: take_update_swap)
  also have "take k bh = take (k - 1) bh @ [bh ! (k - 1)]"
    using assms take_Suc_conv_app_nth[of "k - 1" bh] by simp
  also have "(take (k - 1) bh @ [bh ! (k - 1)]) [k - 1 := e] = take (k - 1) bh @ [e]"
    using assms by (simp add: list_update_append)
  finally show ?thesis .
qed

lemma heap_push_props:
  assumes "is_heap C (k - 1) bh" "1 \<le> k" "k \<le> length bh"
  shows "is_heap C k (heap_push C k bh v l) \<and> length (heap_push C k bh v l) = length bh
      \<and> drop k (heap_push C k bh v l) = drop k bh
      \<and> mset (take k (heap_push C k bh v l)) = add_mset (v, l) (mset (take (k - 1) bh))"
proof -
  obtain bh' i' where pl: "push_loop C bh v k = (bh', i')" by (cases "push_loop C bh v k")
  have hu: "hole_up C k bh v k"
    using assms by (auto simp: hole_up_def is_heap_def)
  have hp: "heap_push C k bh v l = bh' [i' - 1 := (v, l)]" by (simp add: heap_push_def pl)
  from push_loop_props[OF hu pl, of l "(v, l)"]
  have h: "is_heap C k (bh' [i' - 1 := (v, l)])" "length bh' = length bh" "drop k bh' = drop k bh"
    "mset (take k (bh' [i' - 1 := (v, l)])) = mset (take k (bh [k - 1 := (v, l)]))"
    "1 \<le> i'" "i' \<le> k" by simp_all
  have "drop k (bh' [i' - 1 := (v, l)]) = drop k bh" using h(3,5,6) by simp
  moreover have "mset (take k (bh [k - 1 := (v, l)])) = add_mset (v, l) (mset (take (k - 1) bh))"
    using take_update_last[OF assms(2,3), of "(v, l)"] by simp
  ultimately show ?thesis unfolding hp using h by simp
qed

lemma hole_down_stop:
  assumes "hole_down C k bh v i"
    and "\<forall>j. 2 \<le> j \<and> j \<le> k \<and> j div 2 = i \<longrightarrow> node_key C bh j \<le> key C v"
  shows "is_heap C (k - 1) (bh [i - 1 := (v, l)])"
proof -
  from assms(1) have rng: "1 \<le> i" "i \<le> k" "k \<le> length bh"
    and h1: "\<And>j. 2 \<le> j \<Longrightarrow> j \<le> k \<Longrightarrow> j \<noteq> i \<Longrightarrow> j div 2 \<noteq> i \<Longrightarrow> node_key C bh j \<le> node_key C bh (j div 2)"
    and h2: "2 \<le> i \<Longrightarrow> key C v \<le> node_key C bh (i div 2)"
    by (auto simp: hole_down_def)
  have nk: "node_key C (bh [i - 1 := (v, l)]) j = (if j = i then key C v else node_key C bh j)"
    if "1 \<le> j" for j
    using node_key_update[of i bh j C "(v, l)"] rng that by simp
  have "node_key C (bh [i - 1 := (v, l)]) j \<le> node_key C (bh [i - 1 := (v, l)]) (j div 2)"
    if j: "2 \<le> j" "j \<le> k - 1" for j
  proof -
    have j2: "1 \<le> j div 2" "1 \<le> j" "j \<le> k" using j by simp_all
    consider "j = i" | "j \<noteq> i" "j div 2 = i" | "j \<noteq> i" "j div 2 \<noteq> i" by blast
    then show ?thesis
    proof cases
      case 1
      then have "j div 2 \<noteq> i" using j by simp
      then show ?thesis using 1 h2 j nk[of j] nk[of "j div 2"] j2 by simp
    next
      case 2
      then show ?thesis using assms(2) j j2 nk[of j] nk[of "j div 2"] by simp
    next
      case 3
      then show ?thesis using h1[OF j(1) j2(3)] nk[of j] nk[of "j div 2"] j2 by simp
    qed
  qed
  then show ?thesis using rng by (simp add: is_heap_def)
qed

lemma hole_down_step:
  assumes "hole_down C k bh v i" and c: "2 \<le> c" "c \<le> k" "c div 2 = i"
    and best: "\<forall>j. 2 \<le> j \<and> j \<le> k \<and> j div 2 = i \<longrightarrow> node_key C bh j \<le> node_key C bh c"
    and nb: "key C v \<le> node_key C bh c"
  shows "hole_down C k (bh [i - 1 := bh ! (c - 1)]) v c"
proof -
  let ?b = "bh [i - 1 := bh ! (c - 1)]"
  from assms(1) have rng: "1 \<le> i" "i \<le> k" "k \<le> length bh"
    and h1: "\<And>j. 2 \<le> j \<Longrightarrow> j \<le> k \<Longrightarrow> j \<noteq> i \<Longrightarrow> j div 2 \<noteq> i \<Longrightarrow> node_key C bh j \<le> node_key C bh (j div 2)"
    and h2: "\<And>j. 2 \<le> i \<Longrightarrow> 2 \<le> j \<Longrightarrow> j \<le> k \<Longrightarrow> j div 2 = i \<Longrightarrow> node_key C bh j \<le> node_key C bh (i div 2)"
    by (auto simp: hole_down_def)
  have ci: "i < c" using c by auto
  have nk: "node_key C ?b j = (if j = i then node_key C bh c else node_key C bh j)" if "1 \<le> j" for j
    using node_key_update[of i bh j C "bh ! (c - 1)"] rng that by (simp add: node_key_def)
  have c1: "node_key C ?b j \<le> node_key C ?b (j div 2)"
    if j: "2 \<le> j" "j \<le> k" "j \<noteq> c" "j div 2 \<noteq> c" for j
  proof -
    have j2: "1 \<le> j div 2" "1 \<le> j" using j by simp_all
    consider "j = i" | "j \<noteq> i" "j div 2 = i" | "j \<noteq> i" "j div 2 \<noteq> i" by blast
    then show ?thesis
    proof cases
      case 1
      then have "j div 2 \<noteq> i" using j by simp
      then show ?thesis using 1 h2[OF _ c(1,2,3)] j nk[of j] nk[of "j div 2"] j2 by simp
    next
      case 2
      then show ?thesis using best j j2 nk[of j] nk[of "j div 2"] by simp
    next
      case 3
      then show ?thesis using h1[OF j(1,2)] nk[of j] nk[of "j div 2"] j2 by simp
    qed
  qed
  have c2: "key C v \<le> node_key C ?b (c div 2)"
    using nb c rng nk[of i] by simp
  have c3: "node_key C ?b j \<le> node_key C ?b (c div 2)" if j: "2 \<le> j" "j \<le> k" "j div 2 = c" for j
  proof -
    have "j \<noteq> i" "j div 2 \<noteq> i" using j ci by auto
    from h1[OF j(1,2) this] show ?thesis using j c rng nk[of i] nk[of j] \<open>j \<noteq> i\<close> by simp
  qed
  show ?thesis unfolding hole_down_def using c ci rng c1 c2 c3 by auto
qed

lemma children: "j div 2 = i \<longleftrightarrow> j = 2 * i \<or> j = 2 * i + 1" for i j :: nat
  by presburger

lemma pop_loop_props:
  assumes "hole_down C k bh v i" and "pop_loop C k bh v i = (bh', i')"
  shows "is_heap C (k - 1) (bh' [i' - 1 := (v, l)]) \<and> length bh' = length bh
      \<and> drop k bh' = drop k bh \<and> mset (take k (bh' [i' - 1 := e])) = mset (take k (bh [i - 1 := e]))
      \<and> 1 \<le> i' \<and> i' \<le> k \<and> bh' ! (k - 1) = bh ! (k - 1)"
  using assms
proof (induction C k bh v i arbitrary: bh' i' rule: pop_loop.induct)
  case (1 C k bh val i)
  note hd = "1.prems"(1)
  from hd have rng: "1 \<le> i" "i \<le> k" "k \<le> length bh" by (auto simp: hole_down_def)
  let ?i1 = "2 * i" and ?i2 = "2 * i + 1"
  let ?k1 = "node_key C bh ?i1" and ?k2 = "node_key C bh ?i2"
  have stop: "is_heap C (k - 1) (bh' [i' - 1 := (val, l)]) \<and> length bh' = length bh
      \<and> drop k bh' = drop k bh \<and> mset (take k (bh' [i' - 1 := e])) = mset (take k (bh [i - 1 := e]))
      \<and> 1 \<le> i' \<and> i' \<le> k \<and> bh' ! (k - 1) = bh ! (k - 1)"
    if res: "bh' = bh" "i' = i"
      and dom: "\<forall>j. 2 \<le> j \<and> j \<le> k \<and> j div 2 = i \<longrightarrow> node_key C bh j \<le> key C val"
    using hole_down_stop[OF hd dom, of l] res rng by simp
  have step: "is_heap C (k - 1) (bh' [i' - 1 := (val, l)]) \<and> length bh' = length bh
      \<and> drop k bh' = drop k bh \<and> mset (take k (bh' [i' - 1 := e])) = mset (take k (bh [i - 1 := e]))
      \<and> 1 \<le> i' \<and> i' \<le> k \<and> bh' ! (k - 1) = bh ! (k - 1)"
    if c: "c = ?i1 \<or> c = ?i2" "c \<le> k"
      and best: "\<forall>j. 2 \<le> j \<and> j \<le> k \<and> j div 2 = i \<longrightarrow> node_key C bh j \<le> node_key C bh c"
      and nb: "key C val \<le> node_key C bh c"
      and IH: "hole_down C k (bh [i - 1 := bh ! (c - 1)]) val c \<Longrightarrow>
           is_heap C (k - 1) (bh' [i' - 1 := (val, l)]) \<and> length bh' = length (bh [i - 1 := bh ! (c - 1)])
      \<and> drop k bh' = drop k (bh [i - 1 := bh ! (c - 1)])
      \<and> mset (take k (bh' [i' - 1 := e])) = mset (take k ((bh [i - 1 := bh ! (c - 1)]) [c - 1 := e]))
      \<and> 1 \<le> i' \<and> i' \<le> k \<and> bh' ! (k - 1) = (bh [i - 1 := bh ! (c - 1)]) ! (k - 1)"
    for c
  proof -
    have c2: "2 \<le> c" "c div 2 = i" "i < c" using c(1) rng by auto
    have hd': "hole_down C k (bh [i - 1 := bh ! (c - 1)]) val c"
      by (rule hole_down_step[OF hd c2(1) c(2) c2(2) best nb])
    have "i - 1 < k - 1" using c2 c(2) rng by simp
    then have "(bh [i - 1 := bh ! (c - 1)]) ! (k - 1) = bh ! (k - 1)" by simp
    moreover have "drop k (bh [i - 1 := bh ! (c - 1)]) = drop k bh" using rng by simp
    moreover have "mset (take k ((bh [i - 1 := bh ! (c - 1)]) [c - 1 := e])) = mset (take k (bh [i - 1 := e]))"
      using mset_take_swap_hole[of c k i bh e] c2 c(2) rng by simp
    ultimately show ?thesis using IH[OF hd'] by simp
  qed
  show ?case
  proof (cases "?i1 > k")
    case True
    then have "bh' = bh" "i' = i"
      using "1.prems"(2) by (subst (asm) pop_loop.simps; simp add: Let_def)+
    moreover have "\<forall>j. 2 \<le> j \<and> j \<le> k \<and> j div 2 = i \<longrightarrow> node_key C bh j \<le> key C val"
      using True by (auto simp: children)
    ultimately show ?thesis by (rule stop)
  next
    case False
    then have i1k: "?i1 \<le> k" and i0: "i \<noteq> 0" "\<not> (?i1 > k \<or> i = 0)" using rng by simp_all
    show ?thesis
    proof (cases "?i2 = k + 1 \<or> cmp C (fst (bh ! (?i1 - 1))) (fst (bh ! (?i2 - 1)))")
      case A: True
      have "?i2 = k + 1 \<or> ?k2 < ?k1" using A by (simp add: cmp_key node_key_def)
      then have best: "\<forall>j. 2 \<le> j \<and> j \<le> k \<and> j div 2 = i \<longrightarrow> node_key C bh j \<le> ?k1"
        by (auto simp: children)
      show ?thesis
      proof (cases "cmp C val (fst (bh ! (?i1 - 1)))")
        case True
        then have "bh' = bh" "i' = i"
          using "1.prems"(2) A i0 by (subst (asm) pop_loop.simps; simp add: Let_def)+
        moreover have "?k1 < key C val" using True by (simp add: cmp_key node_key_def)
        then have "\<forall>j. 2 \<le> j \<and> j \<le> k \<and> j div 2 = i \<longrightarrow> node_key C bh j \<le> key C val"
          using best by fastforce
        ultimately show ?thesis by (rule stop)
      next
        case False
        have call: "pop_loop C k (bh [i - 1 := bh ! (?i1 - 1)]) val ?i1 = (bh', i')"
          using "1.prems"(2) A False i0 by (subst (asm) pop_loop.simps) (simp add: Let_def)
        show ?thesis
        proof (rule step[of ?i1])
          show "?i1 = ?i1 \<or> ?i1 = ?i2" by simp
          show "?i1 \<le> k" by (rule i1k)
          show "\<forall>j. 2 \<le> j \<and> j \<le> k \<and> j div 2 = i \<longrightarrow> node_key C bh j \<le> ?k1" by (rule best)
          show "key C val \<le> ?k1" using False by (simp add: cmp_key node_key_def)
          assume "hole_down C k (bh [i - 1 := bh ! (?i1 - 1)]) val ?i1"
          from "1.IH"(1)[OF refl refl i0(2) A False this call]
          show "is_heap C (k - 1) (bh' [i' - 1 := (val, l)]) \<and> length bh' = length (bh [i - 1 := bh ! (?i1 - 1)])
      \<and> drop k bh' = drop k (bh [i - 1 := bh ! (?i1 - 1)])
      \<and> mset (take k (bh' [i' - 1 := e])) = mset (take k ((bh [i - 1 := bh ! (?i1 - 1)]) [?i1 - 1 := e]))
      \<and> 1 \<le> i' \<and> i' \<le> k \<and> bh' ! (k - 1) = (bh [i - 1 := bh ! (?i1 - 1)]) ! (k - 1)" .
        qed
      qed
    next
      case B: False
      then have i2k: "?i2 \<le> k" using i1k by simp
      have "?k1 \<le> ?k2" using B by (simp add: cmp_key node_key_def)
      then have best: "\<forall>j. 2 \<le> j \<and> j \<le> k \<and> j div 2 = i \<longrightarrow> node_key C bh j \<le> ?k2"
        by (auto simp: children)
      show ?thesis
      proof (cases "cmp C val (fst (bh ! (?i2 - 1)))")
        case True
        then have "bh' = bh" "i' = i"
          using "1.prems"(2) B i0 by (subst (asm) pop_loop.simps; simp add: Let_def)+
        moreover have "?k2 < key C val" using True by (simp add: cmp_key node_key_def)
        then have "\<forall>j. 2 \<le> j \<and> j \<le> k \<and> j div 2 = i \<longrightarrow> node_key C bh j \<le> key C val"
          using best by fastforce
        ultimately show ?thesis by (rule stop)
      next
        case False
        have call: "pop_loop C k (bh [i - 1 := bh ! (?i2 - 1)]) val ?i2 = (bh', i')"
          using "1.prems"(2) B False i0 by (subst (asm) pop_loop.simps) (simp add: Let_def)
        show ?thesis
        proof (rule step[of ?i2])
          show "?i2 = ?i1 \<or> ?i2 = ?i2" by simp
          show "?i2 \<le> k" by (rule i2k)
          show "\<forall>j. 2 \<le> j \<and> j \<le> k \<and> j div 2 = i \<longrightarrow> node_key C bh j \<le> ?k2" by (rule best)
          show "key C val \<le> ?k2" using False by (simp add: cmp_key node_key_def)
          assume "hole_down C k (bh [i - 1 := bh ! (?i2 - 1)]) val ?i2"
          from "1.IH"(2)[OF refl refl i0(2) B False this call]
          show "is_heap C (k - 1) (bh' [i' - 1 := (val, l)]) \<and> length bh' = length (bh [i - 1 := bh ! (?i2 - 1)])
      \<and> drop k bh' = drop k (bh [i - 1 := bh ! (?i2 - 1)])
      \<and> mset (take k (bh' [i' - 1 := e])) = mset (take k ((bh [i - 1 := bh ! (?i2 - 1)]) [?i2 - 1 := e]))
      \<and> 1 \<le> i' \<and> i' \<le> k \<and> bh' ! (k - 1) = (bh [i - 1 := bh ! (?i2 - 1)]) ! (k - 1)" .
        qed
      qed
    qed
  qed
qed

lemma heap_pop_props:
  assumes "is_heap C k bh" "1 \<le> k"
  shows "is_heap C (k - 1) (heap_pop C k bh) \<and> length (heap_pop C k bh) = length bh
      \<and> drop k (heap_pop C k bh) = drop k bh
      \<and> add_mset (bh ! 0) (mset (take (k - 1) (heap_pop C k bh))) = mset (take k bh)"
proof -
  let ?val = "fst (bh ! (k - 1))" and ?l = "snd (bh ! (k - 1))"
  obtain bh' i' where pl: "pop_loop C k bh ?val 1 = (bh', i')" by (cases "pop_loop C k bh ?val 1")
  have kl: "k \<le> length bh" using assms(1) by (simp add: is_heap_def)
  have hd: "hole_down C k bh ?val 1"
    using assms by (auto simp: hole_down_def is_heap_def)
  from pop_loop_props[OF hd pl, of ?l "bh ! 0"]
  have h: "is_heap C (k - 1) (bh' [i' - 1 := (?val, ?l)])" "length bh' = length bh"
    "drop k bh' = drop k bh" "mset (take k (bh' [i' - 1 := bh ! 0])) = mset (take k bh)"
    "1 \<le> i'" "i' \<le> k" "bh' ! (k - 1) = bh ! (k - 1)"
    by simp_all
  have hp: "heap_pop C k bh = bh' [i' - 1 := (?val, ?l)]"
    using h(7) pl by (simp add: heap_pop_def Let_def)
  have d: "drop k (bh' [i' - 1 := (?val, ?l)]) = drop k bh" using h(3,5,6) by simp
  have m: "add_mset (bh ! 0) (mset (take (k - 1) (bh' [i' - 1 := (?val, ?l)]))) = mset (take k bh)"
  proof (cases "i' = k")
    case True
    have "(?val, ?l) = bh' ! (k - 1)" using h(7) by simp
    then have "bh' [k - 1 := (?val, ?l)] = bh'" by (simp only: list_update_id)
    moreover have "take k (bh' [k - 1 := bh ! 0]) = take (k - 1) bh' @ [bh ! 0]"
      using take_update_last[of k bh' "bh ! 0"] assms(2) kl h(2) by simp
    ultimately show ?thesis using h(4) True by simp
  next
    case False
    then have lt: "i' - 1 < k - 1" using h(5,6) by simp
    let ?xs = "take (k - 1) bh'"
    have lx: "length ?xs = k - 1" using kl h(2) by simp
    have tk: "take k ys = take (k - 1) ys @ [ys ! (k - 1)]" if "length ys = length bh" for ys :: heap
      using take_Suc_conv_app_nth[of "k - 1" ys] assms(2) kl that by simp
    have "mset (take k (bh' [i' - 1 := bh ! 0])) = add_mset (bh ! (k - 1)) (mset (?xs [i' - 1 := bh ! 0]))"
      using tk[of "bh' [i' - 1 := bh ! 0]"] h(2,7) lt by (simp add: take_update_swap)
    also have "mset (?xs [i' - 1 := bh ! 0]) = add_mset (bh ! 0) (mset ?xs - {#?xs ! (i' - 1)#})"
      using lt lx by (simp add: mset_update)
    finally have a: "mset (take k bh)
        = add_mset (bh ! (k - 1)) (add_mset (bh ! 0) (mset ?xs - {#?xs ! (i' - 1)#}))"
      using h(4) by simp
    have "mset (take (k - 1) (bh' [i' - 1 := (?val, ?l)])) = mset (?xs [i' - 1 := bh ! (k - 1)])"
      using lt by (simp add: take_update_swap)
    also have "\<dots> = add_mset (bh ! (k - 1)) (mset ?xs - {#?xs ! (i' - 1)#})"
      using lt lx by (simp add: mset_update)
    finally show ?thesis using a by simp
  qed
  show ?thesis unfolding hp using h(1,2) d m by simp
qed

lemma heap_root_max:
  assumes "is_heap C m bh"
  shows "1 \<le> j \<Longrightarrow> j \<le> m \<Longrightarrow> node_key C bh j \<le> node_key C bh 1"
proof (induction j rule: less_induct)
  case (less j)
  show ?case
  proof (cases "j = 1")
    case True
    then show ?thesis by simp
  next
    case False
    then have j: "2 \<le> j" using less.prems by simp
    then have "node_key C bh j \<le> node_key C bh (j div 2)"
      using assms less.prems by (simp add: is_heap_def)
    moreover have "node_key C bh (j div 2) \<le> node_key C bh 1"
      using less.IH[of "j div 2"] j less.prems by simp
    ultimately show ?thesis by simp
  qed
qed

lemma heap_root_max_set:
  assumes "is_heap C m bh" "e \<in> set (take m bh)"
  shows "key C (fst e) \<le> key C (fst (bh ! 0))"
proof -
  from assms(2) obtain p where p: "p < m" "p < length bh" "bh ! p = e"
    by (auto simp: in_set_conv_nth)
  from heap_root_max[OF assms(1), of "p + 1"] p show ?thesis
    by (simp add: node_key_def)
qed

lemma replace_root_props:
  assumes "is_heap C k bh" "1 \<le> k"
  shows "is_heap C k (heap_push C k (heap_pop C k bh) v l)
      \<and> length (heap_push C k (heap_pop C k bh) v l) = length bh
      \<and> drop k (heap_push C k (heap_pop C k bh) v l) = drop k bh
      \<and> add_mset (bh ! 0) (mset (take k (heap_push C k (heap_pop C k bh) v l)))
          = add_mset (v, l) (mset (take k bh))"
proof -
  have kl: "k \<le> length bh" using assms(1) by (simp add: is_heap_def)
  note p = heap_pop_props[OF assms]
  then have "is_heap C (k - 1) (heap_pop C k bh)" "k \<le> length (heap_pop C k bh)"
    using kl by simp_all
  note q = heap_push_props[OF this(1) assms(2) this(2), of v l]
  show ?thesis using p q by (simp add: add_mset_commute)
qed

lemma is_heap_update_outside:
  assumes "is_heap C m bh" "m \<le> p"
  shows "is_heap C m (bh [p := e])"
proof -
  have eq: "node_key C (bh [p := e]) j = node_key C bh j" if "1 \<le> j" "j \<le> m" for j
    using that assms(2) by (simp add: node_key_def)
  have "node_key C (bh [p := e]) j \<le> node_key C (bh [p := e]) (j div 2)" if "2 \<le> j" "j \<le> m" for j
    using eq[of j] eq[of "j div 2"] that assms(1) by (simp add: is_heap_def)
  then show ?thesis using assms(1) by (simp add: is_heap_def)
qed

lemma reorder_loop_props:
  assumes "ii \<le> i" "i \<le> k" "is_heap C (k - i) bh" "k \<le> length bh"
    and "reorder_loop C k i ii bh = (bh', ii')"
  shows "\<exists>S. take ii' (drop (k - ii') bh') = S @ take ii (drop (k - ii) bh)
           \<and> sorted (map (\<lambda>e. key C (fst e)) S)
           \<and> mset S = filter_mset true_pair (mset (take (k - i) bh))
           \<and> ii' = ii + length S \<and> ii' \<le> k
           \<and> length bh' = length bh \<and> drop k bh' = drop k bh"
  using assms
proof (induction C k i ii bh arbitrary: bh' ii' rule: reorder_loop.induct)
  case (1 C k i ii bh)
  show ?case
  proof (cases "i < k")
    case False
    then have "bh' = bh" "ii' = ii" "k - i = 0"
      using "1.prems" by (subst (asm) reorder_loop.simps; simp)+
    then show ?thesis using "1.prems" by simp
  next
    case True
    define top where "top = bh ! 0"
    define bh1 where "bh1 = heap_pop C (k - i) bh"
    define bh2 where "bh2 = bh1 [k - ii - 1 := top]"
    define ii2 where "ii2 = (if snd top \<noteq> - 1 then ii + 1 else ii)"
    note hp = "1.prems"(3) and kl = "1.prems"(4) and le = "1.prems"(1)
    have ki: "1 \<le> k - i" using True by simp
    from heap_pop_props[OF hp ki]
    have p: "is_heap C (k - i - 1) bh1" "length bh1 = length bh" "drop (k - i) bh1 = drop (k - i) bh"
      "add_mset top (mset (take (k - i - 1) bh1)) = mset (take (k - i) bh)"
      by (simp_all add: bh1_def top_def)
    have call: "reorder_loop C k (i + 1) ii2 bh2 = (bh', ii')"
      using "1.prems"(5) True
      by (subst (asm) reorder_loop.simps) (simp add: Let_def top_def bh1_def bh2_def ii2_def)
    have h2: "is_heap C (k - (i + 1)) bh2"
      unfolding bh2_def using is_heap_update_outside[OF p(1), of "k - ii - 1" top] le by simp
    have l2: "length bh2 = length bh" by (simp add: bh2_def p(2))
    have ii2: "ii2 \<le> i + 1" using le by (simp add: ii2_def)
    from "1.IH"[OF True top_def bh1_def bh2_def ii2[unfolded ii2_def] _ h2 _ call[unfolded ii2_def], folded ii2_def] True kl l2
    obtain S2 where S2: "take ii' (drop (k - ii') bh') = S2 @ take ii2 (drop (k - ii2) bh2)"
      "sorted (map (\<lambda>e. key C (fst e)) S2)"
      "mset S2 = filter_mset true_pair (mset (take (k - (i + 1)) bh2))"
      "ii' = ii2 + length S2" "ii' \<le> k" "length bh' = length bh2" "drop k bh' = drop k bh2"
      by auto
    have t2: "take (k - (i + 1)) bh2 = take (k - i - 1) bh1"
      using le by (simp add: bh2_def)
    have dk: "drop k bh2 = drop k bh"
    proof -
      have "drop k bh2 = drop k bh1" using True le by (simp add: bh2_def)
      also have "\<dots> = drop (k - (k - i)) (drop (k - i) bh1)" using True by simp
      also have "\<dots> = drop k bh" unfolding p(3) using True by simp
      finally show ?thesis .
    qed
    have dr: "drop (k - ii) bh2 = drop (k - ii) bh"
    proof -
      have "drop (k - ii) bh2 = drop (k - ii) bh1" using True le by (simp add: bh2_def)
      also have "\<dots> = drop (k - ii - (k - i)) (drop (k - i) bh1)" using True le by simp
      also have "\<dots> = drop (k - ii) bh" unfolding p(3) using True le by simp
      finally show ?thesis .
    qed
    have topH: "top \<in> set (take (k - i) bh)"
    proof -
      have "0 < length (take (k - i) bh)" using ki kl True by simp
      then have "take (k - i) bh ! 0 \<in> set (take (k - i) bh)" by (rule nth_mem)
      then show ?thesis using ki by (simp add: top_def)
    qed
    have bound: "key C (fst e) \<le> key C (fst top)" if "e \<in> set S2" for e
    proof -
      have "e \<in># mset S2" using that by simp
      then have "e \<in># mset (take (k - i - 1) bh1)" unfolding S2(3) t2 by simp
      then have "e \<in># mset (take (k - i) bh)" unfolding p(4)[symmetric] by simp
      then have "e \<in> set (take (k - i) bh)" by simp
      from heap_root_max_set[OF hp this] show ?thesis by (simp add: top_def)
    qed
    show ?thesis
    proof (cases "snd top \<noteq> - 1")
      case valid: True
      then have i2: "ii2 = ii + 1" by (simp add: ii2_def)
      have idx: "k - ii - 1 < length bh2" using True le kl l2 by simp
      have sk: "Suc (k - ii - 1) = k - ii" "k - ii2 = k - ii - 1" using True le i2 by simp_all
      have "drop (k - ii2) bh2 = bh2 ! (k - ii - 1) # drop (k - ii) bh2"
        using Cons_nth_drop_Suc[OF idx] unfolding sk by simp
      also have "bh2 ! (k - ii - 1) = top" using idx by (simp add: bh2_def)
      finally have "take ii2 (drop (k - ii2) bh2) = top # take ii (drop (k - ii) bh)"
        using i2 dr by simp
      then have a: "take ii' (drop (k - ii') bh') = (S2 @ [top]) @ take ii (drop (k - ii) bh)"
        using S2(1) by simp
      have b: "sorted (map (\<lambda>e. key C (fst e)) (S2 @ [top]))"
        using S2(2) bound by (simp add: sorted_append)
      have c: "mset (S2 @ [top]) = filter_mset true_pair (mset (take (k - i) bh))"
        unfolding p(4)[symmetric] using S2(3) t2 valid by (simp add: true_pair_def)
      show ?thesis
        apply (rule exI[of _ "S2 @ [top]"])
        using a b c S2(4,5,6,7) i2 l2 dk by simp
    next
      case invalid: False
      then have i2: "ii2 = ii" by (simp add: ii2_def)
      have a: "take ii' (drop (k - ii') bh') = S2 @ take ii (drop (k - ii) bh)"
        using S2(1) i2 dr by simp
      have c: "mset S2 = filter_mset true_pair (mset (take (k - i) bh))"
        unfolding p(4)[symmetric] using S2(3) t2 invalid by (simp add: true_pair_def)
      show ?thesis
        apply (rule exI[of _ S2])
        using a c S2(2,4,5,6,7) i2 l2 dk by simp
    qed
  qed
qed

lemma heap_reorder_props:
  assumes "is_heap C k bh"
  shows "\<exists>S. heap_reorder C k bh = S @ replicate (k - length S) (neutral C, - 1) @ drop k bh
           \<and> sorted (map (\<lambda>e. key C (fst e)) S)
           \<and> mset S = filter_mset true_pair (mset (take k bh)) \<and> length S \<le> k"
proof -
  obtain bh' ii' where rl: "reorder_loop C k 0 0 bh = (bh', ii')"
    by (cases "reorder_loop C k 0 0 bh")
  have kl: "k \<le> length bh" using assms by (simp add: is_heap_def)
  have "is_heap C (k - 0) bh" using assms by simp
  from reorder_loop_props[OF le0 le0 this kl rl]
  obtain S where s1: "take ii' (drop (k - ii') bh') = S @ take 0 (drop (k - 0) bh)"
    and S2: "sorted (map (\<lambda>e. key C (fst e)) S)"
    and s3: "mset S = filter_mset true_pair (mset (take (k - 0) bh))"
    and s4: "ii' = 0 + length S" and S5: "ii' \<le> k"
    and S6: "drop k bh' = drop k bh"
    by (elim exE conjE)
  have S1: "take ii' (drop (k - ii') bh') = S" using s1 by simp
  have S3: "mset S = filter_mset true_pair (mset (take k bh))" using s3 by simp
  have S4: "ii' = length S" using s4 by simp
  have "heap_reorder C k bh = S @ replicate (k - length S) (neutral C, - 1) @ drop k bh"
    unfolding heap_reorder_def rl using S1 S6 by (simp add: S4)
  then show ?thesis using S2 S3 S4 S5 by blast
qed

lemma key_neutral: "key C (neutral C) = FLT_MAX"
  by (cases C) (simp_all add: key_def)

lemma is_heap_replicate: "is_heap C k (replicate k e)"
  by (auto simp: is_heap_def node_key_def)

lemma knn_scan_props:
  assumes "is_heap (heap_of m) k bh" "length bh = k" "0 < k"
    and "\<forall>e \<in> set bh. cand_ok m dd q y ny e"
  shows "is_heap (heap_of m) k (knn_scan m dd q y ny k j bh)
       \<and> length (knn_scan m dd q y ny k j bh) = k
       \<and> (\<forall>e \<in> set (knn_scan m dd q y ny k j bh). cand_ok m dd q y ny e)"
  using assms
proof (induction m dd q y ny k j bh rule: knn_scan.induct)
  case (1 m dd q y ny k j bh)
  let ?C = "heap_of m"
  show ?case
  proof (cases "j < ny")
    case False
    then show ?thesis using "1.prems" by (subst (1 2 3) knn_scan.simps) simp
  next
    case True
    define dis where "dis = metric m q (vec_at dd y j)"
    define bh1 where "bh1 = (if cmp ?C (fst (bh ! 0)) dis
               then heap_push ?C k (heap_pop ?C k bh) dis (int j) else bh)"
    have unfold: "knn_scan m dd q y ny k j bh = knn_scan m dd q y ny k (j + 1) bh1"
      using True by (subst knn_scan.simps) (simp add: Let_def dis_def bh1_def)
    have k1: "1 \<le> k" using "1.prems"(3) by simp
    have b1: "is_heap ?C k bh1 \<and> length bh1 = k \<and> (\<forall>e \<in> set bh1. cand_ok m dd q y ny e)"
    proof (cases "cmp ?C (fst (bh ! 0)) dis")
      case False
      then show ?thesis using "1.prems" by (simp add: bh1_def)
    next
      case better: True
      from replace_root_props[OF "1.prems"(1) k1, of dis "int j"]
      have r: "is_heap ?C k (heap_push ?C k (heap_pop ?C k bh) dis (int j))"
        "length (heap_push ?C k (heap_pop ?C k bh) dis (int j)) = length bh"
        "add_mset (bh ! 0) (mset (take k (heap_push ?C k (heap_pop ?C k bh) dis (int j))))
          = add_mset (dis, int j) (mset (take k bh))"
        by blast+
      have eq: "bh1 = heap_push ?C k (heap_pop ?C k bh) dis (int j)" using better by (simp add: bh1_def)
      have len: "length bh1 = k" using r(2) "1.prems"(2) by (simp add: eq)
      have "bh ! 0 \<in> set bh" using "1.prems"(2,3) by simp
      then have "cand_ok m dd q y ny (bh ! 0)" using "1.prems"(4) by blast
      then have "key ?C (fst (bh ! 0)) \<le> FLT_MAX"
        by (auto simp: cand_ok_def key_neutral)
      moreover have "key ?C dis < key ?C (fst (bh ! 0))" using better by (simp add: cmp_key)
      ultimately have new: "cand_ok m dd q y ny (dis, int j)"
        using True by (simp add: cand_ok_def dis_def)
      have ms: "add_mset (bh ! 0) (mset bh1) = add_mset (dis, int j) (mset bh)"
        using r(3) len "1.prems"(2) by (simp add: eq)
      have "cand_ok m dd q y ny e" if "e \<in> set bh1" for e
      proof -
        have "e \<in># add_mset (bh ! 0) (mset bh1)" using that by simp
        then have "e \<in># add_mset (dis, int j) (mset bh)" unfolding ms .
        then have "e = (dis, int j) \<or> e \<in> set bh" by auto
        then show ?thesis using new "1.prems"(4) by blast
      qed
      then show ?thesis using r(1) len by (simp add: eq)
    qed
    from "1.IH"[OF True dis_def, folded bh1_def] b1 "1.prems"(3)
    show ?thesis unfolding unfold by simp
  qed
qed

lemma knn_query_shape:
  assumes "0 < k"
  shows "\<exists>S. knn_query m dd q y ny k = S @ replicate (k - length S) (neutral (heap_of m), - 1)
           \<and> length S \<le> k
           \<and> sorted (map (\<lambda>e. key (heap_of m) (fst e)) S)
           \<and> (\<forall>e \<in> set S. 0 \<le> snd e \<and> nat (snd e) < ny
                 \<and> fst e = metric m q (vec_at dd y (nat (snd e)))
                 \<and> key (heap_of m) (fst e) < FLT_MAX)"
proof -
  let ?C = "heap_of m"
  let ?init = "replicate k (neutral ?C, - 1)"
  let ?h = "knn_scan m dd q y ny k 0 ?init"
  have "\<forall>e \<in> set ?init. cand_ok m dd q y ny e" by (simp add: cand_ok_def)
  from knn_scan_props[OF is_heap_replicate _ assms this, of 0]
  have h: "is_heap ?C k ?h" "length ?h = k" "\<forall>e \<in> set ?h. cand_ok m dd q y ny e" by simp_all
  from heap_reorder_props[OF h(1)] obtain S where
    S: "heap_reorder ?C k ?h = S @ replicate (k - length S) (neutral ?C, - 1) @ drop k ?h"
    "sorted (map (\<lambda>e. key ?C (fst e)) S)" "mset S = filter_mset true_pair (mset (take k ?h))"
    "length S \<le> k" by blast
  have "0 \<le> snd e \<and> nat (snd e) < ny \<and> fst e = metric m q (vec_at dd y (nat (snd e)))
                 \<and> key ?C (fst e) < FLT_MAX" if "e \<in> set S" for e
  proof -
    have "e \<in># mset S" using that by simp
    then have "e \<in># filter_mset true_pair (mset ?h)" unfolding S(3) using h(2) by simp
    then have "true_pair e" "e \<in> set ?h" by simp_all
    then show ?thesis using h(3) by (auto simp: cand_ok_def true_pair_def)
  qed
  then show ?thesis using S h(2) unfolding knn_query_def by auto
qed














section \<open>Every result slice is ordered best to worst\<close>



section \<open>Refinement over an exact coarse index\<close>













section \<open>Labels after a removal\<close>

lemma remove_ids_search_labels:
  assumes "wf_store s" and "remove_ids sel s = (s', nremove)"
    and "0 < k" and "row \<in> set (IndexFlat_search n x k s')" and "e \<in> set row" and "snd e \<noteq> - 1"
  shows "0 \<le> snd e \<and> nat (snd e) < ntotal s'
       \<and> (\<exists>j<n. fst e = metric (metric_type s) (vec_at (d s) x j)
                       (vec_at (d s) (xb s) (kept sel (ntotal s) ! nat (snd e))))"
proof -
  note r = remove_ids_result[OF assms(1,2)]
  have mt: "metric_type s' = metric_type s"
    using assms(2) by (auto simp: remove_ids_def Let_def split: prod.splits if_splits)
  from assms(4) obtain j where j: "j < n"
    "row = knn_query (metric_type s') (d s') (vec_at (d s') x j) (xb s') (ntotal s') k"
    by (auto simp: IndexFlat_search_def)
  from knn_query_shape[OF assms(3), of "metric_type s'" "d s'" "vec_at (d s') x j" "xb s'" "ntotal s'"]
  obtain S where S: "row = S @ replicate (k - length S) (neutral (heap_of (metric_type s')), - 1)"
    "\<forall>e \<in> set S. 0 \<le> snd e \<and> nat (snd e) < ntotal s'
        \<and> fst e = metric (metric_type s') (vec_at (d s') x j) (vec_at (d s') (xb s') (nat (snd e)))"
    unfolding j(2) by blast
  have "e \<in> set S" using assms(5,6) unfolding S(1) by auto
  then have e: "0 \<le> snd e" "nat (snd e) < ntotal s'"
    "fst e = metric (metric_type s') (vec_at (d s') x j) (vec_at (d s') (xb s') (nat (snd e)))"
    using S(2) by blast+
  have "vec_at (d s) (xb s') (nat (snd e)) = vec_at (d s) (xb s) (kept sel (ntotal s) ! nat (snd e))"
    unfolding r(1) by (rule vec_at_concat) (use kept_vec_length[OF assms(1), of sel] e(2) r(2) in auto)
  then have "fst e = metric (metric_type s) (vec_at (d s) x j)
      (vec_at (d s) (xb s) (kept sel (ntotal s) ! nat (snd e)))"
    using e(3) mt r(4) by simp
  then show ?thesis using e(1,2) j(1) by blast
qed

text \<open>
  Claim C10.  Removal relabels the survivors by storage position: a kept vector with old
  label \<open>i\<close> is found afterwards under \<open>i\<close> minus the number of removed labels below \<open>i\<close>,
  which is a label of the compacted store; \<open>reconstruct\<close> at the new label returns what
  \<open>reconstruct\<close> at the old label returned before; and every true label \<open>l\<close> that a later
  search returns is a position of the compacted store, its distance being the metric value
  of the vector that had the \<open>l\<close>-th kept label before the removal.
\<close>

theorem remove_ids_relabels:
  assumes "wf_store s" and "remove_ids sel s = (s', nremove)"
  shows "(i < ntotal s \<and> \<not> sel i \<longrightarrow>
            reconstruct (int (i - length (filter sel [0..<i]))) s' = Inr (vec_at (d s) (xb s) i)
            \<and> reconstruct (int i) s = Inr (vec_at (d s) (xb s) i)
            \<and> i - length (filter sel [0..<i]) < ntotal s')
       \<and> (0 < k \<and> row \<in> set (IndexFlat_search n x k s') \<and> e \<in> set row \<and> snd e \<noteq> - 1 \<longrightarrow>
            0 \<le> snd e \<and> nat (snd e) < ntotal s'
            \<and> (\<exists>j<n. fst e = metric (metric_type s) (vec_at (d s) x j)
                            (vec_at (d s) (xb s) (kept sel (ntotal s) ! nat (snd e)))))"
proof (rule conjI)
  show "i < ntotal s \<and> \<not> sel i \<longrightarrow>
            reconstruct (int (i - length (filter sel [0..<i]))) s' = Inr (vec_at (d s) (xb s) i)
            \<and> reconstruct (int i) s = Inr (vec_at (d s) (xb s) i)
            \<and> i - length (filter sel [0..<i]) < ntotal s'"
    using remove_ids_reconstruct[OF assms, of i] by blast
  show "0 < k \<and> row \<in> set (IndexFlat_search n x k s') \<and> e \<in> set row \<and> snd e \<noteq> - 1 \<longrightarrow>
            0 \<le> snd e \<and> nat (snd e) < ntotal s'
            \<and> (\<exists>j<n. fst e = metric (metric_type s) (vec_at (d s) x j)
                            (vec_at (d s) (xb s) (kept sel (ntotal s) ! nat (snd e))))"
    using remove_ids_search_labels[OF assms, of k row n x e] by blast
qed

theorem remove_ids_relabels_witness:
  "wf_store (IndexFlat_add 3 [0, 0, 2, 0, 0, 3] (IndexFlat_new 2 METRIC_L2))
   \<and> remove_ids (\<lambda>i. i = 1) (IndexFlat_add 3 [0, 0, 2, 0, 0, 3] (IndexFlat_new 2 METRIC_L2))
       = (\<lparr> d = 2, ntotal = 2, is_trained = True, metric_type = METRIC_L2, xb = [0, 0, 0, 3] \<rparr>, 1)
   \<and> reconstruct 1 \<lparr> d = 2, ntotal = 2, is_trained = True, metric_type = METRIC_L2, xb = [0, 0, 0, 3] \<rparr>
       = Inr [0, 3]
   \<and> reconstruct 2 (IndexFlat_add 3 [0, 0, 2, 0, 0, 3] (IndexFlat_new 2 METRIC_L2)) = Inr [0, 3]
   \<and> reconstruct 1 (IndexFlat_add 3 [0, 0, 2, 0, 0, 3] (IndexFlat_new 2 METRIC_L2)) = Inr [2, 0]
   \<and> IndexFlat_search 1 [0, 0] 2
        \<lparr> d = 2, ntotal = 2, is_trained = True, metric_type = METRIC_L2, xb = [0, 0, 0, 3] \<rparr>
       = [[(0, 0), (9, 1)]]
   \<and> kept (\<lambda>i. i = 1) 3 ! 1 = 2
   \<and> metric METRIC_L2 (vec_at 2 [0, 0] 0) (vec_at 2 [0, 0, 2, 0, 0, 3] 2) = 9"
proof -
  let ?s = "IndexFlat_add 3 [0, 0, 2, 0, 0, 3] (IndexFlat_new 2 METRIC_L2)"
  let ?s' = "\<lparr> d = 2, ntotal = 2, is_trained = True, metric_type = METRIC_L2, xb = [0, 0, 0, 3] \<rparr>"
  have wf: "wf_store ?s" by code_simp
  have ev: "remove_ids (\<lambda>i. i = 1) ?s = (?s', 1)" by code_simp
  have i: "(2::nat) < ntotal ?s \<and> \<not> (\<lambda>i. i = 1) (2::nat)" by code_simp
  have f: "int (2 - length (filter (\<lambda>i. i = 1) [0..<2::nat])) = 1" by code_simp
  have v: "vec_at (d ?s) (xb ?s) 2 = [0, 3]" by code_simp
  have r1: "reconstruct 1 ?s = Inr [2, 0]" by code_simp
  have sr: "IndexFlat_search 1 [0, 0] 2 ?s' = [[(0, 0), (9, 1)]]" by code_simp
  have hyp: "(0::nat) < 2 \<and> [(0, 0), (9, 1)] \<in> set (IndexFlat_search 1 [0, 0] 2 ?s')
      \<and> (9, 1) \<in> set [(0::real, 0::int), (9, 1)] \<and> snd (9::real, 1::int) \<noteq> - 1"
    unfolding sr by simp
  have kp: "kept (\<lambda>i. i = 1) 3 ! 1 = (2::nat)" by code_simp
  have mv: "metric METRIC_L2 (vec_at 2 [0, 0] 0) (vec_at 2 [0, 0, 2, 0, 0, 3] 2) = 9" by code_simp
  from remove_ids_relabels[OF wf ev, of 2 2 "[(0, 0), (9, 1)]" 1 "[0, 0]" "(9, 1)"] i hyp
  have "reconstruct (int (2 - length (filter (\<lambda>i. i = 1) [0..<2::nat]))) ?s' = Inr (vec_at (d ?s) (xb ?s) 2)"
    and "reconstruct (int 2) ?s = Inr (vec_at (d ?s) (xb ?s) 2)"
    by blast+
  then have "reconstruct 1 ?s' = Inr [0, 3]" "reconstruct 2 ?s = Inr [0, 3]"
    unfolding f v by simp_all
  then show ?thesis using wf ev r1 sr kp mv by simp
qed

section \<open>IndexFlat1D: padding when fewer than k vectors are stored\<close>

text \<open>
  In the \<open>Sorted\<close> state of a non-empty index with \<open>ntotal \<le> k\<close>, every query gets each
  stored label once, with a finite distance, in the leading \<open>ntotal\<close> slots, and the label
  \<open>-1\<close> with the distance \<open>+infinity\<close> in the \<open>k - ntotal\<close> trailing slots (lemma
  \<open>axis_search_pads\<close> below).  Only the empty index is missed.
\<close>

lemma padded_emit:
  assumes "padded m lbls r"
  shows "padded m (add_mset l lbls) (emit (Finite v, l) r)"
proof -
  from assms obtain vs where vs: "r = Inr (vs @ replicate m (PosInf, - 1))"
    "mset (map snd vs) = lbls" "\<forall>e \<in> set vs. fst e \<noteq> PosInf"
    by (auto simp: padded_def)
  show ?thesis unfolding padded_def
    by (rule exI[of _ "(Finite v, l) # vs"]) (use vs in \<open>simp add: emit_def\<close>)
qed

lemma padded_pad:
  assumes "padded m {#} r"
  shows "padded (Suc m) {#} (emit (PosInf, - 1) r)"
proof -
  from assms obtain vs where vs: "r = Inr (vs @ replicate m (PosInf, - 1))"
    "mset (map snd vs) = {#}" by (auto simp: padded_def)
  then have "vs = []" by simp
  then show ?thesis using vs(1) by (simp add: padded_def emit_def)
qed

lemma labels_upt: "i < n \<Longrightarrow> [i..<n] = i # [Suc i..<n]"
  by (simp add: upt_conv_Cons)

lemma finish_right_pads_only:
  "wp + r = k \<Longrightarrow> padded r {#} (finish_right s q k (int (ntotal s)) wp)"
proof (induction r arbitrary: wp)
  case 0
  then show ?case by (subst finish_right.simps) (simp add: padded_def)
next
  case (Suc r)
  then have wp: "wp < k" "(wp + 1) + r = k" by simp_all
  have "finish_right s q k (int (ntotal s)) wp
      = emit (PosInf, - 1) (finish_right s q k (int (ntotal s)) (wp + 1))"
    using wp(1) by (subst finish_right.simps) simp
  then show ?case using padded_pad[OF Suc.IH[OF wp(2)]] by simp
qed

lemma finish_right_pads:
  assumes "perm_ok s"
  shows "i1 \<le> ntotal s \<Longrightarrow> wp + (ntotal s - i1) + r = k \<Longrightarrow>
         padded r (mset (map (\<lambda>j. label s (int j)) [i1..<ntotal s])) (finish_right s q k (int i1) wp)"
proof (induction "ntotal s - i1" arbitrary: i1 wp)
  case 0
  then have "i1 = ntotal s" "wp + r = k" by simp_all
  then show ?case using finish_right_pads_only[of wp r k s q] by simp
next
  case (Suc m)
  then have i1: "i1 < ntotal s" "m = ntotal s - (i1 + 1)" "i1 + 1 \<le> ntotal s"
    and wp: "wp < k" "(wp + 1) + (ntotal s - (i1 + 1)) + r = k" by simp_all
  have rd: "xbp s (int i1) = Inr (perm_val s (int i1))" using xbp_ok[OF assms(1), of "int i1"] i1 by simp
  note IH = Suc.hyps(1)[OF i1(2,3) wp(2)]
  have e: "int (i1 + 1) = int i1 + 1" by simp
  have un0: "finish_right s q k (int i1) wp
      = emit (Finite (perm_val s (int i1) - q), label s (int i1)) (finish_right s q k (int i1 + 1) (wp + 1))"
    using i1(1) wp(1) rd by (subst finish_right.simps) simp
  have un: "finish_right s q k (int i1) wp
      = emit (Finite (perm_val s (int i1) - q), label s (int i1)) (finish_right s q k (int (i1 + 1)) (wp + 1))"
    unfolding e by (rule un0)
  show ?case unfolding un using padded_emit[OF IH, of "label s (int i1)"] labels_upt[OF i1(1)]
    by simp
qed

lemma finish_left_pads_only:
  "i0 < 0 \<Longrightarrow> wp + r = k \<Longrightarrow> padded r {#} (finish_left s q k i0 wp)"
proof (induction r arbitrary: wp)
  case 0
  then show ?case by (subst finish_left.simps) (simp add: padded_def)
next
  case (Suc r)
  then have wp: "wp < k" "(wp + 1) + r = k" by simp_all
  have "finish_left s q k i0 wp = emit (PosInf, - 1) (finish_left s q k i0 (wp + 1))"
    using wp(1) Suc.prems(1) by (subst finish_left.simps) simp
  then show ?case using padded_pad[OF Suc.IH[OF Suc.prems(1) wp(2)]] by simp
qed

lemma finish_left_pads:
  assumes "perm_ok s"
  shows "c \<le> ntotal s \<Longrightarrow> wp + c + r = k \<Longrightarrow>
         padded r (mset (map (\<lambda>j. label s (int j)) [0..<c])) (finish_left s q k (int c - 1) wp)"
proof (induction c arbitrary: wp)
  case 0
  then show ?case using finish_left_pads_only[of "- 1" wp r k s q] by simp
next
  case (Suc c)
  then have c: "c < ntotal s" "c \<le> ntotal s" and wp: "wp < k" "(wp + 1) + c + r = k" by simp_all
  have rd: "xbp s (int c) = Inr (perm_val s (int c))" using xbp_ok[OF assms(1), of "int c"] c by simp
  note IH = Suc.IH[OF c(2) wp(2)]
  have un: "finish_left s q k (int (Suc c) - 1) wp
      = emit (Finite (q - perm_val s (int c)), label s (int c)) (finish_left s q k (int c - 1) (wp + 1))"
    using wp rd by (subst finish_left.simps) simp
  show ?case unfolding un using padded_emit[OF IH, of "label s (int c)"] by simp
qed

lemma expand_pads:
  assumes "perm_ok s"
  shows "i0 < i1 \<Longrightarrow> i1 < ntotal s \<Longrightarrow> wp + (Suc i0 + (ntotal s - i1)) + r = k \<Longrightarrow>
         padded r (mset (map (\<lambda>j. label s (int j)) ([0..<Suc i0] @ [i1..<ntotal s])))
           (expand s q k (int i0) (int i1) wp)"
proof (induction "i0 + (ntotal s - i1)" arbitrary: i0 i1 wp)
  case 0
  then show ?case by simp
next
  case (Suc m)
  note lt = Suc.prems(1) and i1 = Suc.prems(2) and room = Suc.prems(3)
  let ?f = "\<lambda>j. label s (int j)"
  have wp: "wp < k" using room by simp
  have rl: "xbp s (int i0) = Inr (perm_val s (int i0))"
    using xbp_ok[OF assms(1), of "int i0"] lt i1 by simp
  have rr: "xbp s (int i1) = Inr (perm_val s (int i1))"
    using xbp_ok[OF assms(1), of "int i1"] i1 by simp
  let ?xl = "perm_val s (int i0)" and ?xr = "perm_val s (int i1)"
  show ?case
  proof (cases "q - ?xl < ?xr - q")
    case left: True
    let ?rest = "(if int i0 - 1 < 0 then finish_right s q k (int i1) (wp + 1)
                      else expand s q k (int i0 - 1) (int i1) (wp + 1))"
    have un: "expand s q k (int i0) (int i1) wp = emit (Finite (q - ?xl), ?f i0) ?rest"
      using wp rl rr left by (subst expand.simps) simp
    have rest: "padded r (mset (map ?f ([0..<i0] @ [i1..<ntotal s]))) ?rest"
    proof (cases i0)
      case 0
      have "(wp + 1) + (ntotal s - i1) + r = k" using room 0 by simp
      from finish_right_pads[OF assms(1) _ this, of q] i1
      show ?thesis using 0 by simp
    next
      case (Suc j)
      have m: "m = j + (ntotal s - i1)" using Suc.hyps(2) Suc by simp
      have "j < i1" using lt Suc by simp
      moreover have "(wp + 1) + (Suc j + (ntotal s - i1)) + r = k" using room Suc by simp
      ultimately have "padded r (mset (map ?f ([0..<Suc j] @ [i1..<ntotal s])))
          (expand s q k (int j) (int i1) (wp + 1))"
        using Suc.hyps(1)[OF m _ i1] by blast
      moreover have "int i0 - 1 = int j" "\<not> int i0 - 1 < 0" using Suc by simp_all
      ultimately show ?thesis using Suc by (simp only: if_False)
    qed
    have "mset (map ?f ([0..<Suc i0] @ [i1..<ntotal s]))
        = add_mset (?f i0) (mset (map ?f ([0..<i0] @ [i1..<ntotal s])))" by simp
    then show ?thesis unfolding un using padded_emit[OF rest, of "?f i0" "q - ?xl"] by (simp only:)
  next
    case right: False
    let ?rest = "(if int i1 + 1 \<ge> int (ntotal s) then finish_left s q k (int i0) (wp + 1)
                      else expand s q k (int i0) (int i1 + 1) (wp + 1))"
    have un: "expand s q k (int i0) (int i1) wp = emit (Finite (?xr - q), ?f i1) ?rest"
      using wp rl rr right by (subst expand.simps) simp
    have rest: "padded r (mset (map ?f ([0..<Suc i0] @ [Suc i1..<ntotal s]))) ?rest"
    proof (cases "Suc i1 = ntotal s")
      case True
      then have "(wp + 1) + Suc i0 + r = k" using room by simp
      moreover have "Suc i0 \<le> ntotal s" using lt i1 by simp
      ultimately have "padded r (mset (map ?f [0..<Suc i0])) (finish_left s q k (int (Suc i0) - 1) (wp + 1))"
        using finish_left_pads[OF assms(1)] by blast
      moreover have "int (Suc i0) - 1 = int i0" by simp
      moreover have "int i1 + 1 \<ge> int (ntotal s)" using True by simp
      ultimately show ?thesis using True by (simp only: if_True upt_conv_Nil order_refl append_Nil2)
    next
      case False
      then have i1': "Suc i1 < ntotal s" using i1 by simp
      have m: "m = i0 + (ntotal s - Suc i1)" using Suc.hyps(2) i1 by simp
      have "i0 < Suc i1" using lt by simp
      moreover have "(wp + 1) + (Suc i0 + (ntotal s - Suc i1)) + r = k" using room i1 by simp
      ultimately have "padded r (mset (map ?f ([0..<Suc i0] @ [Suc i1..<ntotal s])))
          (expand s q k (int i0) (int (Suc i1)) (wp + 1))"
        using Suc.hyps(1)[OF m _ i1'] by blast
      moreover have "int (Suc i1) = int i1 + 1" by simp
      moreover have "\<not> int i1 + 1 \<ge> int (ntotal s)" using i1' by simp
      ultimately show ?thesis by (simp only: if_False)
    qed
    have "mset (map ?f ([0..<Suc i0] @ [i1..<ntotal s]))
        = add_mset (?f i1) (mset (map ?f ([0..<Suc i0] @ [Suc i1..<ntotal s])))"
      using labels_upt[OF i1] by simp
    then show ?thesis unfolding un using padded_emit[OF rest, of "?f i1" "?xr - q"] by (simp only:)
  qed
qed


lemma stored_labels:
  assumes "Sorted s"
  shows "mset (map (\<lambda>j. label s (int j)) [0..<ntotal s]) = mset (map int [0..<ntotal s])"
proof -
  have l: "length (perm s) = ntotal s" using Sorted_perm_ok[OF assms] by (simp add: perm_ok_def)
  have "map (\<lambda>j. label s (int j)) [0..<ntotal s] = map int (map (\<lambda>j. perm s ! j) [0..<length (perm s)])"
    unfolding l by (simp add: label_def)
  also have "\<dots> = map int (perm s)" by (simp only: map_nth)
  finally have "mset (map (\<lambda>j. label s (int j)) [0..<ntotal s]) = image_mset int (mset (perm s))"
    by simp
  also have "mset (perm s) = mset (sort (perm s))" by simp
  also have "\<dots> = mset [0..<ntotal s]" using assms by (simp only: Sorted_def)
  finally show ?thesis by simp
qed

lemma search_query_pads:
  assumes "Sorted s" "0 < ntotal s" "ntotal s + r = k"
  shows "padded r (mset (map int [0..<ntotal s])) (search_query s q k)"
proof -
  note ok = Sorted_perm_ok[OF assms(1)]
  let ?n = "int (ntotal s)"
  let ?f = "\<lambda>j. label s (int j)"
  have r0: "xbp s 0 = Inr (perm_val s 0)" using xbp_ok[OF ok, of 0] assms(2) by simp
  have r1: "xbp s (?n - 1) = Inr (perm_val s (?n - 1))"
    using xbp_ok[OF ok, of "?n - 1"] assms(2) by simp
  have goal: "padded r (mset (map ?f [0..<ntotal s])) (search_query s q k)"
  proof (cases "perm_val s 0 > q")
    case True
    have "0 + (ntotal s - 0) + r = k" using assms(3) by simp
    from finish_right_pads[OF ok _ this, of q]
    show ?thesis using True r0 by (simp add: search_query_def)
  next
    case nr: False
    show ?thesis
    proof (cases "perm_val s (?n - 1) \<le> q")
      case True
      have "0 + ntotal s + r = k" using assms(3) by simp
      from finish_left_pads[OF ok _ this, of q]
      show ?thesis using True nr r0 r1 by (simp add: search_query_def)
    next
      case nl: False
      from bsearch_ok[OF ok, of 0 ?n q] assms(2) nr
      obtain j where j: "bsearch s q 0 ?n = Inr (j, j + 1)" "0 \<le> j" "j < ?n" "perm_val s j \<le> q"
        by auto
      have "j \<noteq> ?n - 1" using j(4) nl by auto
      then have j1: "j + 1 < ?n" using j(3) by simp
      define i0 where "i0 = nat j"
      have ij: "j = int i0" "j + 1 = int (Suc i0)" using j(2) by (simp_all add: i0_def)
      have i1: "Suc i0 < ntotal s" using j1 ij by simp
      have room: "0 + (Suc i0 + (ntotal s - Suc i0)) + r = k" using assms(3) i1 by simp
      have ap: "[0..<Suc i0] @ [Suc i0..<ntotal s] = [0..<ntotal s]"
        using i1 upt_add_eq_append[of 0 "Suc i0" "ntotal s - Suc i0"] by simp
      have "i0 < Suc i0" by simp
      from expand_pads[OF ok this i1 room, of q]
      have ex: "padded r (mset (map ?f [0..<ntotal s])) (expand s q k (int i0) (int (Suc i0)) 0)"
        unfolding ap .
      have bs: "bsearch s q 0 ?n = Inr (int i0, int (Suc i0))"
        using j(1) unfolding ij(2)[symmetric] ij(1)[symmetric] .
      have "search_query s q k = expand s q k (int i0) (int (Suc i0)) 0"
        using nl nr r0 r1 bs by (simp add: search_query_def del: of_nat_Suc)
      then show ?thesis using ex by (simp only:)
    qed
  qed
  show ?thesis using goal unfolding stored_labels[OF assms(1)] .
qed

lemma axis_search_pads:
  assumes "Sorted s" "0 < ntotal s" "ntotal s \<le> k" "n \<le> length x"
  shows "\<exists>rows. IndexFlat1D_search n x k s = Inr rows \<and> length rows = n
           \<and> (\<forall>row \<in> set rows. \<exists>vs. row = vs @ replicate (k - ntotal s) (PosInf, - 1)
                 \<and> mset (map snd vs) = mset (map int [0..<ntotal s])
                 \<and> (\<forall>e \<in> set vs. fst e \<noteq> PosInf))"
proof -
  have "ntotal s + (k - ntotal s) = k" using assms(3) by simp
  note p = search_query_pads[OF assms(1,2) this]
  have "\<forall>r \<in> set (map (\<lambda>i. search_query s (x ! i) k) [0..<n]).
          \<exists>v. r = Inr v \<and> (\<exists>vs. v = vs @ replicate (k - ntotal s) (PosInf, - 1)
                 \<and> mset (map snd vs) = mset (map int [0..<ntotal s])
                 \<and> (\<forall>e \<in> set vs. fst e \<noteq> PosInf))"
  proof
    fix r assume "r \<in> set (map (\<lambda>i. search_query s (x ! i) k) [0..<n])"
    then obtain i where "r = search_query s (x ! i) k" by auto
    then show "\<exists>v. r = Inr v \<and> (\<exists>vs. v = vs @ replicate (k - ntotal s) (PosInf, - 1)
                 \<and> mset (map snd vs) = mset (map int [0..<ntotal s])
                 \<and> (\<forall>e \<in> set vs. fst e \<noteq> PosInf))"
      using p[of "x ! i"] unfolding padded_def by blast
  qed
  from collect_all[OF this] show ?thesis
    using assms Sorted_perm_ok[OF assms(1)] by (simp add: IndexFlat1D_search_def perm_ok_def)
qed

end
